theory Spec2Isabelle
  imports Main "HOL-Library.Word"
begin

unbundle bit_operations_syntax

section \<open>Data model of the booking service\<close>

text \<open>
  The identifiers of the service are C++ \<open>int\<close>s that are only compared for equality and
  used as keys, so they are modelled as \<open>int\<close>. The seat mask of a show is a
  \<open>std::uint32_t\<close>, modelled as a 32-bit word.
\<close>

type_synonym MovieId = int
type_synonym TheaterId = int
type_synonym ShowId = int
type_synonym u32 = "32 word"

record Movie =
  movie_id :: MovieId
  title :: string

record Theater =
  theater_id :: TheaterId
  name :: string

record Show =
  show_id :: ShowId
  show_movie_id :: MovieId
  show_theater_id :: TheaterId

record BookingResult =
  success :: bool
  message :: string

text \<open>
  \<open>ShowState\<close> holds one atomic \<open>booked_mask\<close>; the class keeps the shows' states in
  its member \<open>show_state\<close>, an unordered map from show id to the state (the members
  carry a trailing underscore in the source, which a name cannot here; \<open>shows\<close> is
  \<open>show_list\<close>). The map is filled by the constructor and never changes its domain
  afterwards.
\<close>

record BookingService =
  movies :: "Movie list"
  theaters :: "Theater list"
  show_list :: "Show list"
  show_state :: "ShowId \<rightharpoonup> u32"

definition kSeatCount :: int where
  "kSeatCount = 20"

section \<open>The seat label codec\<close>

subsection \<open>\<open>std::stoi\<close> and \<open>std::to_string\<close>\<close>

text \<open>
  \<open>std::stoi (str, &pos)\<close> with base 10 is \<open>strtol\<close> on the characters of the string:
  it skips leading white space (\<open>isspace\<close> of the C locale), reads an optional sign, then
  the longest run of decimal digits. It throws \<open>invalid_argument\<close> when there is no digit
  and \<open>out_of_range\<close> when the value does not fit an \<open>int\<close>; otherwise it returns the
  value and stores in \<open>pos\<close> the number of characters it consumed, white space and sign
  included.
\<close>

datatype stoi_error = invalid_argument | out_of_range

definition isspace :: "char \<Rightarrow> bool" where
  "isspace c = (c = CHR '' '' \<or> c = CHR 0x09 \<or> c = CHR 0x0A \<or> c = CHR 0x0B
                \<or> c = CHR 0x0C \<or> c = CHR 0x0D)"

definition isdigit :: "char \<Rightarrow> bool" where
  "isdigit c = (48 \<le> (of_char c :: nat) \<and> (of_char c :: nat) \<le> 57)"

definition digit_value :: "char \<Rightarrow> int" where
  "digit_value c = int (of_char c) - 48"

fun digits_value :: "int \<Rightarrow> string \<Rightarrow> int" where
  "digits_value acc [] = acc"
| "digits_value acc (c # cs) = digits_value (acc * 10 + digit_value c) cs"

fun strip_sign :: "string \<Rightarrow> bool \<times> string" where
  "strip_sign [] = (False, [])"
| "strip_sign (c # cs) =
     (if c = CHR ''-'' then (True, cs)
      else if c = CHR ''+'' then (False, cs)
      else (False, c # cs))"

definition stoi :: "string \<Rightarrow> stoi_error + (int \<times> nat)" where
  "stoi str =
     (let rest = dropWhile isspace str;
          (neg, body) = strip_sign rest;
          ds = takeWhile isdigit body;
          v = (if neg then - digits_value 0 ds else digits_value 0 ds)
      in if ds = [] then Inl invalid_argument
         else if v < - (2 ^ 31) \<or> 2 ^ 31 - 1 < v then Inl out_of_range
         else Inr (v, (length str - length body) + length ds))"

text \<open>\<open>std::to_string (int)\<close>: the decimal digits, with a minus sign for a negative value.\<close>

definition digit_char :: "nat \<Rightarrow> char" where
  "digit_char d = char_of (48 + d)"

function nat_to_string :: "nat \<Rightarrow> string" where
  "nat_to_string n =
     (if n < 10 then [digit_char n] else nat_to_string (n div 10) @ [digit_char (n mod 10)])"
  by pat_completeness auto
termination
  by (relation "measure (\<lambda>n. n)") auto

declare nat_to_string.simps [simp del]

definition to_string :: "int \<Rightarrow> string" where
  "to_string v = (if v < 0 then CHR ''-'' # nat_to_string (nat (- v)) else nat_to_string (nat v))"

subsection \<open>Labels and indices\<close>

text \<open>
  \<open>try_parse_seat_label\<close> returns \<open>false\<close> (here \<open>None\<close>) or \<open>true\<close> with the index
  written to \<open>out_index0\<close> (here \<open>Some\<close> of the index). Both exceptions of \<open>std::stoi\<close>
  are caught and give \<open>false\<close>.
\<close>

definition try_parse_seat_label :: "string \<Rightarrow> int option" where
  "try_parse_seat_label label =
     (if length label < 2 then None
      else let row0 = hd label;
               row = (if row0 = CHR ''A'' then CHR ''a'' else row0)
           in if row \<noteq> CHR ''a'' then None
              else (case stoi (drop 1 label) of
                      Inl e \<Rightarrow> None
                    | Inr (num, pos) \<Rightarrow>
                        if pos \<noteq> length label - 1 then None
                        else if num < 1 \<or> num > kSeatCount then None
                        else Some (num - 1)))"

text \<open>
  \<open>seat_label_from_index0\<close> adds 1 to an \<open>int\<close>; the model does so on unbounded integers,
  which agrees with the source wherever the source's addition is defined.
\<close>

definition seat_label_from_index0 :: "int \<Rightarrow> string" where
  "seat_label_from_index0 index0 = ''a'' @ to_string (index0 + 1)"

subsection \<open>Request masks\<close>

text \<open>
  \<open>seats_to_mask_or_fail\<close> returns the mask and fills \<open>out_error\<close>; the model returns the
  pair of both. The loop over \<open>labels\<close> carries the mask built so far.
\<close>

fun seats_loop :: "u32 \<Rightarrow> string list \<Rightarrow> u32 \<times> string" where
  "seats_loop msk [] = (msk, [])"
| "seats_loop msk (lbl # rest) =
     (case try_parse_seat_label lbl of
        None \<Rightarrow> (0, ''Invalid seat label: '' @ lbl)
      | Some idx0 \<Rightarrow>
          (let bitm = push_bit (nat idx0) (1 :: u32)
           in if msk AND bitm \<noteq> 0 then (0, ''Duplicate seat label: '' @ lbl)
              else seats_loop (msk OR bitm) rest))"

definition seats_to_mask_or_fail :: "string list \<Rightarrow> u32 \<times> string" where
  "seats_to_mask_or_fail labels = seats_loop 0 labels"

section \<open>The service\<close>

subsection \<open>Construction and lookup\<close>

text \<open>\<open>emplace\<close> on the unordered map inserts only when the key is absent.\<close>

definition emplace :: "('k \<rightharpoonup> 'v) \<Rightarrow> 'k \<Rightarrow> 'v \<Rightarrow> ('k \<rightharpoonup> 'v)" where
  "emplace m k v = (case m k of None \<Rightarrow> m(k \<mapsto> v) | Some old \<Rightarrow> m)"

definition ShowState_ctor :: u32 where
  "ShowState_ctor = 0"

definition BookingService_ctor :: BookingService where
  "BookingService_ctor =
     (let ms = [\<lparr>movie_id = 1, title = ''Inception''\<rparr>,
                \<lparr>movie_id = 2, title = ''Interstellar''\<rparr>,
                \<lparr>movie_id = 3, title = ''The Matrix''\<rparr>];
          ts = [\<lparr>theater_id = 1, name = ''Central Cinema''\<rparr>,
                \<lparr>theater_id = 2, name = ''Mall Theater''\<rparr>];
          ss = [\<lparr>show_id = 1, show_movie_id = 1, show_theater_id = 1\<rparr>,
                \<lparr>show_id = 2, show_movie_id = 1, show_theater_id = 2\<rparr>,
                \<lparr>show_id = 3, show_movie_id = 2, show_theater_id = 1\<rparr>,
                \<lparr>show_id = 4, show_movie_id = 3, show_theater_id = 2\<rparr>]
      in \<lparr>movies = ms, theaters = ts, show_list = ss,
          show_state = foldl (\<lambda>m sh. emplace m (show_id sh) ShowState_ctor) Map.empty ss\<rparr>)"

definition get_state :: "BookingService \<Rightarrow> ShowId \<Rightarrow> u32 option" where
  "get_state svc sid = show_state svc sid"

definition get_state_mut :: "BookingService \<Rightarrow> ShowId \<Rightarrow> u32 option" where
  "get_state_mut svc sid = show_state svc sid"

subsection \<open>Listing the available seats\<close>

text \<open>The \<open>for\<close> loop of \<open>list_available_seats\<close>, from \<open>i\<close> on, appending to \<open>out\<close>.\<close>

function seats_scan :: "int \<Rightarrow> u32 \<Rightarrow> string list \<Rightarrow> string list" where
  "seats_scan i msk out =
     (if i < kSeatCount
      then seats_scan (i + 1) msk
             (if msk AND push_bit (nat i) 1 = 0 then out @ [seat_label_from_index0 i] else out)
      else out)"
  by pat_completeness auto
termination
  by (relation "measure (\<lambda>(i, msk, out). nat (kSeatCount - i))") auto

declare seats_scan.simps [simp del]

definition list_available_seats :: "BookingService \<Rightarrow> ShowId \<Rightarrow> string list" where
  "list_available_seats svc sid =
     (case get_state svc sid of
        None \<Rightarrow> []
      | Some msk \<Rightarrow> seats_scan 0 msk [])"

subsection \<open>Booking\<close>

text \<open>
  \<open>compare_exchange_weak\<close> on the atomic mask: with the memory value \<open>mem\<close>, the expected
  value and the desired one, it returns whether it stored, the new memory value and the
  new content of \<open>expected\<close>. The weak form may fail although the values agree; the flag
  \<open>spurious\<close> says whether it does so at this attempt.
\<close>

definition compare_exchange_weak :: "bool \<Rightarrow> u32 \<Rightarrow> u32 \<Rightarrow> u32 \<Rightarrow> bool \<times> u32 \<times> u32" where
  "compare_exchange_weak spurious mem expected desired =
     (if mem = expected \<and> \<not> spurious then (True, desired, expected) else (False, mem, mem))"

definition rejected :: "string \<Rightarrow> BookingResult" where
  "rejected msg = \<lparr>success = False, message = msg\<rparr>"

definition booked :: BookingResult where
  "booked = \<lparr>success = True, message = ''Booked successfully''\<rparr>"

text \<open>
  The \<open>while (true)\<close> loop of \<open>book_seats\<close> for a call that no other thread interferes
  with. The loop has no bound of its own: it ends when the test against \<open>current\<close>
  rejects or the compare-and-set stores. What the hardware decides, how often the weak
  compare-and-set fails spuriously before it is allowed to store, is the parameter \<open>n\<close>;
  every call that returns has such an \<open>n\<close>, and for every \<open>n\<close> the loop below ends
  (a call whose compare-and-set failed spuriously forever would not return at all). The
  loop returns the result and the value it leaves in the atomic mask. Calls that other
  threads interfere with are modelled in the section on concurrent calls.
\<close>

function cas_loop :: "nat \<Rightarrow> u32 \<Rightarrow> u32 \<Rightarrow> u32 \<Rightarrow> BookingResult \<times> u32" where
  "cas_loop n mem current req =
     (if current AND req \<noteq> 0 then (rejected ''One or more seats already booked'', mem)
      else (let desired = current OR req;
                r = compare_exchange_weak (0 < n) mem current desired
            in if fst r then (booked, fst (snd r))
               else cas_loop (n - 1) (fst (snd r)) (snd (snd r)) req))"
  by pat_completeness auto
termination
  by (relation "measure (\<lambda>(n, mem, current, req). 2 * n + (if mem = current then 0 else 1))")
     (auto simp: compare_exchange_weak_def split: if_splits)

declare cas_loop.simps [simp del]

text \<open>
  \<open>book_seats\<close> returns its result and the service as the call leaves it; only the mask
  of the show can differ from the service it was called on.
\<close>

definition book_seats ::
  "nat \<Rightarrow> BookingService \<Rightarrow> ShowId \<Rightarrow> string list \<Rightarrow> BookingResult \<times> BookingService" where
  "book_seats n svc sid seat_labels =
     (case get_state_mut svc sid of
        None \<Rightarrow> (rejected ''Invalid show id'', svc)
      | Some st \<Rightarrow>
          if seat_labels = [] then (rejected ''No seats provided'', svc)
          else (let (req, err) = seats_to_mask_or_fail seat_labels
                in if err \<noteq> [] then (rejected err, svc)
                   else (let current = st;
                             (res, mem) = cas_loop n st current req
                         in (res, svc\<lparr>show_state := (show_state svc)(sid \<mapsto> mem)\<rparr>))))"

subsection \<open>Sequences of calls\<close>

text \<open>
  A caller's view of the two operations on shows: \<open>Book n sid labels\<close> is a call of
  \<open>book_seats\<close> (with \<open>n\<close> spurious failures of its compare-and-set), \<open>ListAvailable sid\<close>
  a call of the \<open>const\<close> method \<open>list_available_seats\<close>, whose result is dropped here.
\<close>

datatype call = Book nat ShowId "string list" | ListAvailable ShowId

fun run_call :: "BookingService \<Rightarrow> call \<Rightarrow> BookingService" where
  "run_call svc (Book n sid seat_labels) = snd (book_seats n svc sid seat_labels)"
| "run_call svc (ListAvailable sid) = svc"

definition run_calls :: "BookingService \<Rightarrow> call list \<Rightarrow> BookingService" where
  "run_calls svc cs = foldl run_call svc cs"

text \<open>The bit of a label in a request mask, zero for a label that does not parse.\<close>

definition label_bit :: "string \<Rightarrow> u32" where
  "label_bit lbl =
     (case try_parse_seat_label lbl of None \<Rightarrow> 0 | Some idx0 \<Rightarrow> push_bit (nat idx0) 1)"

definition or_list :: "u32 list \<Rightarrow> u32" where
  "or_list ws = foldr (OR) ws 0"

text \<open>
  A valid request: every label parses, and no two labels have the same seat index.
\<close>

definition valid_request :: "string list \<Rightarrow> bool" where
  "valid_request ls = (list_all (\<lambda>l. try_parse_seat_label l \<noteq> None) ls \<and>
                        distinct (map try_parse_seat_label ls))"

section \<open>Concurrent calls\<close>

text \<open>
  Several threads call \<open>book_seats\<close> on one service. The only shared data a call
  touches is the atomic mask of its show (the map \<open>show_state\<close> itself is fixed after
  construction), and all its accesses are sequentially consistent atomic operations, so
  an execution is an interleaving of the calls' atomic operations. A call is at one of
  three places: at its entry; at the head of the loop, with its request mask and the
  value of its local \<open>current\<close>; or returned with its result.
\<close>

datatype pc = Entry | Loop u32 u32 | Ret BookingResult

record thread =
  t_show :: ShowId
  t_labels :: "string list"
  t_pc :: pc

definition call_thread :: "ShowId \<times> string list \<Rightarrow> thread" where
  "call_thread c = \<lparr>t_show = fst c, t_labels = snd c, t_pc = Entry\<rparr>"

text \<open>
  One step of a call, each with at most one access to the shared mask. From the entry the
  call validates its arguments, which touches no mask, and then loads the mask into
  \<open>current\<close>. At the head of the loop it tests \<open>current\<close> against the request and then
  runs the compare-and-set, which may fail spuriously.
\<close>

definition thread_step :: "bool \<Rightarrow> BookingService \<Rightarrow> thread \<Rightarrow> BookingService \<times> thread" where
  "thread_step spurious svc t =
     (case t_pc t of
        Entry \<Rightarrow>
          (case get_state_mut svc (t_show t) of
             None \<Rightarrow> (svc, t\<lparr>t_pc := Ret (rejected ''Invalid show id'')\<rparr>)
           | Some st \<Rightarrow>
               if t_labels t = [] then (svc, t\<lparr>t_pc := Ret (rejected ''No seats provided'')\<rparr>)
               else (let (req, err) = seats_to_mask_or_fail (t_labels t)
                     in if err \<noteq> [] then (svc, t\<lparr>t_pc := Ret (rejected err)\<rparr>)
                        else (svc, t\<lparr>t_pc := Loop req st\<rparr>)))
      | Loop req current \<Rightarrow>
          if current AND req \<noteq> 0
          then (svc, t\<lparr>t_pc := Ret (rejected ''One or more seats already booked'')\<rparr>)
          else (case get_state_mut svc (t_show t) of
                  None \<Rightarrow> (svc, t)
                | Some mem \<Rightarrow>
                    (let desired = current OR req;
                         r = compare_exchange_weak spurious mem current desired
                     in if fst r
                        then (svc\<lparr>show_state := (show_state svc)(t_show t \<mapsto> fst (snd r))\<rparr>,
                              t\<lparr>t_pc := Ret booked\<rparr>)
                        else (svc, t\<lparr>t_pc := Loop req (snd (snd r))\<rparr>)))
      | Ret res \<Rightarrow> (svc, t))"

text \<open>A step of the system is a step of any one of its threads.\<close>

inductive step :: "BookingService \<times> thread list \<Rightarrow> BookingService \<times> thread list \<Rightarrow> bool" where
  "i < length ts \<Longrightarrow> thread_step spurious svc (ts ! i) = (svc', t') \<Longrightarrow>
   step (svc, ts) (svc', ts[i := t'])"

text \<open>The request mask of a thread's call and whether the call has returned success.\<close>

definition request_mask :: "thread \<Rightarrow> u32" where
  "request_mask t = fst (seats_to_mask_or_fail (t_labels t))"

definition claimed :: "thread \<Rightarrow> bool" where
  "claimed t = (t_pc t = Ret booked)"

text \<open>
  What holds of every configuration that an execution of calls reaches: a call in its
  loop carries the request mask of its labels, and its \<open>current\<close> holds only bits of the
  committed mask of its show; the request of a call that returned success lies within
  the committed mask of its show; and two calls on one show that both returned success
  have disjoint requests.
\<close>

definition loop_ok :: "BookingService \<Rightarrow> thread \<Rightarrow> bool" where
  "loop_ok svc t =
     (case t_pc t of
        Loop req cur \<Rightarrow>
          req = request_mask t \<and>
          (case show_state svc (t_show t) of None \<Rightarrow> False | Some m \<Rightarrow> cur AND m = cur)
      | _ \<Rightarrow> True)"

definition claim_ok :: "BookingService \<Rightarrow> thread \<Rightarrow> bool" where
  "claim_ok svc t =
     (if claimed t
      then (case show_state svc (t_show t) of
              None \<Rightarrow> False
            | Some m \<Rightarrow> request_mask t AND m = request_mask t)
      else True)"

definition sys_inv :: "BookingService \<times> thread list \<Rightarrow> bool" where
  "sys_inv c =
     (list_all (loop_ok (fst c)) (snd c) \<and> list_all (claim_ok (fst c)) (snd c) \<and>
      (\<forall>i < length (snd c). \<forall>j < length (snd c).
         i \<noteq> j \<and> claimed (snd c ! i) \<and> claimed (snd c ! j) \<and>
         t_show (snd c ! i) = t_show (snd c ! j) \<longrightarrow>
         request_mask (snd c ! i) AND request_mask (snd c ! j) = 0))"

text \<open>
  An example of contention: calls that ask for seat \<open>a10\<close> of show 1, the service
  after one of them has booked it, and calls that ask for seat \<open>a11\<close> of the same show.
\<close>

definition a10_call :: "pc \<Rightarrow> thread" where
  "a10_call p = \<lparr>t_show = 1, t_labels = [''a10''], t_pc = p\<rparr>"

definition a10_booked :: BookingService where
  "a10_booked =
     BookingService_ctor\<lparr>show_state := (show_state BookingService_ctor)(1 \<mapsto> 512)\<rparr>"

definition a11_call :: "pc \<Rightarrow> thread" where
  "a11_call p = \<lparr>t_show = 1, t_labels = [''a11''], t_pc = p\<rparr>"

text \<open>The service after one call has booked all 20 seats of show 1.\<close>

definition all_seats_booked :: BookingService where
  "all_seats_booked =
     snd (book_seats 0 BookingService_ctor 1 (map seat_label_from_index0 [0..19]))"

section \<open>Properties of the codec\<close>

lemma try_parse_range:
  "try_parse_seat_label l = Some i \<Longrightarrow> 0 \<le> i \<and> i < 20"
  by (auto simp: try_parse_seat_label_def kSeatCount_def Let_def split: if_splits sum.splits)

lemma roundtrip_all:
  "list_all (\<lambda>i. try_parse_seat_label (seat_label_from_index0 i) = Some i) [0..19]"
  by code_simp

text \<open>
  Claim C5: for every index \<open>i\<close> from 0 to 19, parsing the label that
  \<open>seat_label_from_index0\<close> produces succeeds and gives \<open>i\<close> back.
\<close>

theorem parse_format_roundtrip:
  "0 \<le> i \<Longrightarrow> i \<le> 19 \<Longrightarrow> try_parse_seat_label (seat_label_from_index0 i) = Some i"
  using roundtrip_all by (simp add: list_all_iff)

theorem parse_format_roundtrip_witness:
  "try_parse_seat_label (seat_label_from_index0 7) = Some 7"
  using parse_format_roundtrip [of 7] by simp

text \<open>
  Claim C4: a label is accepted only when it is the row letter followed immediately by
  an unsigned decimal number from 1 to 20, with no sign and no white space. The parser
  does not meet this: \<open>std::stoi\<close> skips white space and reads a sign before the digits
  and counts both as consumed, so the check that the whole suffix was consumed passes.
  The labels \<open>a+5\<close> and \<open>a 5\<close> are accepted as seat index 4.
\<close>

theorem parse_accepts_sign_and_space:
  "try_parse_seat_label ''a+5'' = Some 4 \<and> try_parse_seat_label ''a 5'' = Some 4"
  by code_simp

section \<open>Properties of request masks\<close>

lemma push_bit_disjoint:
  "i < 32 \<Longrightarrow> j < 32 \<Longrightarrow> ((push_bit i 1 :: u32) AND push_bit j 1 = 0) = (i \<noteq> j)"
  by (auto simp: bit_eq_iff bit_simps)

lemma label_bit_disjoint:
  assumes "try_parse_seat_label a = Some i" "try_parse_seat_label b = Some j"
  shows "(label_bit a AND label_bit b = 0) = (i \<noteq> j)"
proof -
  have "nat i < 32" "nat j < 32" "0 \<le> i" "0 \<le> j"
    using try_parse_range [OF assms(1)] try_parse_range [OF assms(2)] by auto
  then show ?thesis
    using assms push_bit_disjoint [of "nat i" "nat j"] by (auto simp: label_bit_def)
qed

lemma and_or_list_zero:
  "(a AND or_list ws = 0) = (\<forall>w \<in> set ws. a AND w = 0)"
  by (induction ws) (auto simp: or_list_def bit_eq_iff bit_simps)

lemma seats_loop_prefix:
  "valid_request pre \<Longrightarrow> msk AND or_list (map label_bit pre) = 0 \<Longrightarrow>
   seats_loop msk (pre @ rest) = seats_loop (msk OR or_list (map label_bit pre)) rest"
proof (induction pre arbitrary: msk)
  case Nil
  then show ?case by (simp add: or_list_def)
next
  case (Cons p pre)
  from Cons.prems(1) obtain i where i: "try_parse_seat_label p = Some i"
    by (auto simp: valid_request_def)
  have lb: "push_bit (nat i) 1 = label_bit p" by (simp add: label_bit_def i)
  have cl: "valid_request pre" using Cons.prems(1) by (simp add: valid_request_def)
  have disj: "label_bit p AND label_bit l' = 0" if "l' \<in> set pre" for l'
  proof -
    from Cons.prems(1) that obtain j where j: "try_parse_seat_label l' = Some j"
      by (auto simp: valid_request_def list_all_iff)
    from Cons.prems(1) that i j have "i \<noteq> j" by (force simp: valid_request_def)
    then show ?thesis using label_bit_disjoint [OF i j] by simp
  qed
  have here: "msk AND label_bit p = 0" and there: "\<forall>l' \<in> set pre. msk AND label_bit l' = 0"
    using Cons.prems(2) by (simp_all add: and_or_list_zero)
  have "msk AND or_list (map label_bit pre) = 0" "label_bit p AND or_list (map label_bit pre) = 0"
    using there disj by (simp_all add: and_or_list_zero)
  then have "(msk OR label_bit p) AND or_list (map label_bit pre) = 0"
    by (simp add: word_ao_dist)
  with Cons.IH [OF cl, of "msk OR label_bit p"]
  have step: "seats_loop (msk OR label_bit p) (pre @ rest) =
              seats_loop (msk OR label_bit p OR or_list (map label_bit pre)) rest"
    by (simp add: word_bw_assocs)
  have "seats_loop msk ((p # pre) @ rest) = seats_loop (msk OR label_bit p) (pre @ rest)"
    unfolding append_Cons seats_loop.simps i option.case Let_def lb using here by simp
  with step show ?case by (simp add: or_list_def)
qed

lemma seats_encode_valid:
  "valid_request ls \<Longrightarrow> seats_to_mask_or_fail ls = (or_list (map label_bit ls), [])"
  using seats_loop_prefix [of ls 0 "[]"] by (simp add: seats_to_mask_or_fail_def)

lemma seats_encode_invalid:
  "valid_request pre \<Longrightarrow> try_parse_seat_label l = None \<Longrightarrow>
   seats_to_mask_or_fail (pre @ l # post) = (0, ''Invalid seat label: '' @ l)"
  using seats_loop_prefix [of pre 0 "l # post"] by (simp add: seats_to_mask_or_fail_def)

lemma seats_encode_duplicate:
  assumes "valid_request pre" and "try_parse_seat_label l \<in> set (map try_parse_seat_label pre)"
  shows "seats_to_mask_or_fail (pre @ l # post) = (0, ''Duplicate seat label: '' @ l)"
proof -
  from assms obtain p where p: "p \<in> set pre" "try_parse_seat_label l = try_parse_seat_label p"
    by auto
  with assms(1) obtain i where i: "try_parse_seat_label p = Some i" "try_parse_seat_label l = Some i"
    by (auto simp: valid_request_def list_all_iff)
  have "label_bit p AND label_bit l \<noteq> 0"
    using label_bit_disjoint [OF i] by simp
  then have "label_bit l AND or_list (map label_bit pre) \<noteq> 0"
    using p(1) by (auto simp: and_or_list_zero word_bw_comms)
  then have hit: "or_list (map label_bit pre) AND push_bit (nat i) 1 \<noteq> 0"
    by (simp add: label_bit_def i word_bw_comms)
  have "seats_loop (or_list (map label_bit pre)) (l # post) = (0, ''Duplicate seat label: '' @ l)"
    unfolding seats_loop.simps i option.case Let_def using hit by simp
  then show ?thesis
    using seats_loop_prefix [OF assms(1), of 0 "l # post"] by (simp add: seats_to_mask_or_fail_def)
qed

text \<open>
  Claim C6, as amended: \<open>seats_to_mask_or_fail\<close> goes through the labels in input order,
  and the first label that either fails to parse or repeats the seat of an earlier label
  of the same request decides the outcome. After a prefix of labels that all parse to
  distinct seats, a label that fails to parse gives the error naming it as invalid, and
  a label whose seat is already among the prefix's seats gives the error naming it as
  duplicate. The duplicate test only looks at the labels of the request (the function
  has no access to a show's committed mask). A request whose labels all parse to
  distinct seats gives the OR of the labels' bits and no error.

  The claim as stated gives a label that fails to parse precedence over any duplicate.
  The code does not: in the request \<open>a2, a2, zz\<close> the only label that fails to parse is
  \<open>zz\<close>, and the result is the duplicate error for the second \<open>a2\<close>, which the loop
  meets first.
\<close>

theorem seats_to_mask_in_order:
  "(valid_request pre \<and> try_parse_seat_label l = None \<longrightarrow>
      seats_to_mask_or_fail (pre @ l # post) = (0, ''Invalid seat label: '' @ l)) \<and>
   (valid_request pre \<and> try_parse_seat_label l \<in> set (map try_parse_seat_label pre) \<longrightarrow>
      seats_to_mask_or_fail (pre @ l # post) = (0, ''Duplicate seat label: '' @ l)) \<and>
   (valid_request ls \<longrightarrow> seats_to_mask_or_fail ls = (or_list (map label_bit ls), []))"
  using seats_encode_valid seats_encode_invalid seats_encode_duplicate by blast

theorem seats_to_mask_in_order_witness:
  "seats_to_mask_or_fail [''a1'', ''A3'', ''a21'', ''a1''] = (0, ''Invalid seat label: a21'') \<and>
   seats_to_mask_or_fail [''a1'', ''A3'', ''a01'', ''b7''] = (0, ''Duplicate seat label: a01'') \<and>
   seats_to_mask_or_fail [''a1'', ''A3''] = (5, [])"
proof -
  have p1: "try_parse_seat_label ''a1'' = Some 0" by code_simp
  have p3: "try_parse_seat_label ''A3'' = Some 2" by code_simp
  have p01: "try_parse_seat_label ''a01'' = Some 0" by code_simp
  have n: "try_parse_seat_label ''a21'' = None" by code_simp
  have c: "valid_request [''a1'', ''A3'']" by (simp add: valid_request_def p1 p3)
  have d: "try_parse_seat_label ''a01'' \<in> set (map try_parse_seat_label [''a1'', ''A3''])"
    by (simp add: p1 p01)
  have v: "or_list (map label_bit [''a1'', ''A3'']) = 5"
    by (simp add: or_list_def label_bit_def p1 p3)
  note t1 = seats_to_mask_in_order [of "[''a1'', ''A3'']" "''a21''" "[''a1'']" "[''a1'', ''A3'']"]
  note t2 = seats_to_mask_in_order [of "[''a1'', ''A3'']" "''a01''" "[''b7'']" "[''a1'', ''A3'']"]
  have "seats_to_mask_or_fail ([''a1'', ''A3''] @ ''a21'' # [''a1'']) =
          (0, ''Invalid seat label: '' @ ''a21'')"
    using t1 c n by blast
  moreover have "seats_to_mask_or_fail ([''a1'', ''A3''] @ ''a01'' # [''b7'']) =
          (0, ''Duplicate seat label: '' @ ''a01'')"
    using t2 c d by blast
  moreover have "seats_to_mask_or_fail [''a1'', ''A3''] = (or_list (map label_bit [''a1'', ''A3'']), [])"
    using t1 c by blast
  ultimately show ?thesis using v by simp
qed

theorem seats_to_mask_duplicate_before_invalid_counterexample:
  "try_parse_seat_label ''a2'' = Some 1 \<and> try_parse_seat_label ''zz'' = None \<and>
   seats_to_mask_or_fail [''a2'', ''a2'', ''zz''] = (0, ''Duplicate seat label: a2'')"
  by code_simp

section \<open>Properties of the availability listing\<close>

lemma and_push_bit_zero:
  "n < 32 \<Longrightarrow> ((w :: u32) AND push_bit n 1 = 0) = (\<not> bit w n)"
  by (auto simp: bit_eq_iff [where ?'a = "32 word"] bit_simps)

lemma seats_scan_eq:
  "0 \<le> i \<Longrightarrow> seats_scan i msk out =
     out @ map seat_label_from_index0 (filter (\<lambda>j. \<not> bit msk (nat j)) [i..19])"
proof (induction i msk out rule: seats_scan.induct)
  case (1 i msk out)
  show ?case
  proof (cases "i < kSeatCount")
    case True
    then have up: "[i..19] = i # [i + 1..19]"
      by (simp add: kSeatCount_def upto_rec1)
    have b: "(msk AND push_bit (nat i) 1 = 0) = (\<not> bit msk (nat i))"
      using True "1.prems" by (intro and_push_bit_zero) (simp add: kSeatCount_def)
    have nn: "0 \<le> i + 1" using "1.prems" by simp
    have step: "seats_scan i msk out =
        seats_scan (i + 1) msk
          (if msk AND push_bit (nat i) 1 = 0 then out @ [seat_label_from_index0 i] else out)"
      by (subst seats_scan.simps) (simp only: True if_True)
    note ih = "1.IH" [OF True nn]
    show ?thesis
      by (simp only: step ih) (simp only: b, simp add: up)
  next
    case False
    then have "[i..19] = []" by (simp add: kSeatCount_def)
    with False show ?thesis by (subst seats_scan.simps) simp
  qed
qed

lemma ctor_state:
  "show_state BookingService_ctor = [1 \<mapsto> 0, 2 \<mapsto> 0, 3 \<mapsto> 0, 4 \<mapsto> 0]"
  by (simp add: BookingService_ctor_def emplace_def ShowState_ctor_def)

lemma labels_all: "map seat_label_from_index0 [0..19] =
  [''a1'', ''a2'', ''a3'', ''a4'', ''a5'', ''a6'', ''a7'', ''a8'', ''a9'', ''a10'',
   ''a11'', ''a12'', ''a13'', ''a14'', ''a15'', ''a16'', ''a17'', ''a18'', ''a19'', ''a20'']"
  by code_simp

lemma list_available_eq:
  "show_state svc sid = Some msk \<Longrightarrow>
     list_available_seats svc sid =
       map seat_label_from_index0 (filter (\<lambda>j. \<not> bit msk (nat j)) [0..19])"
  by (simp add: list_available_seats_def get_state_def seats_scan_eq)

text \<open>
  Claim C8: \<open>list_available_seats\<close> gives the labels of the clear bits of the committed
  mask in ascending index order (the indices 0 to 19 in order, those with a set bit left
  out), and for a show that the constructor registered, whose mask the constructor set to
  zero, it gives all 20 labels \<open>a1\<close> to \<open>a20\<close> in ascending order.
\<close>

theorem list_available_ascending:
  "(show_state svc sid = Some msk \<longrightarrow>
      list_available_seats svc sid =
        map seat_label_from_index0 (filter (\<lambda>j. \<not> bit msk (nat j)) [0..19])) \<and>
   (show_state BookingService_ctor sid' \<noteq> None \<longrightarrow>
      show_state BookingService_ctor sid' = Some 0 \<and>
      list_available_seats BookingService_ctor sid' =
        [''a1'', ''a2'', ''a3'', ''a4'', ''a5'', ''a6'', ''a7'', ''a8'', ''a9'', ''a10'',
         ''a11'', ''a12'', ''a13'', ''a14'', ''a15'', ''a16'', ''a17'', ''a18'', ''a19'',
         ''a20''])"
proof (intro conjI impI)
  assume "show_state svc sid = Some msk"
  then show "list_available_seats svc sid =
        map seat_label_from_index0 (filter (\<lambda>j. \<not> bit msk (nat j)) [0..19])"
    by (rule list_available_eq)
next
  assume "show_state BookingService_ctor sid' \<noteq> None"
  then show z: "show_state BookingService_ctor sid' = Some 0"
    by (auto simp: ctor_state split: if_splits)
  show "list_available_seats BookingService_ctor sid' =
        [''a1'', ''a2'', ''a3'', ''a4'', ''a5'', ''a6'', ''a7'', ''a8'', ''a9'', ''a10'',
         ''a11'', ''a12'', ''a13'', ''a14'', ''a15'', ''a16'', ''a17'', ''a18'', ''a19'',
         ''a20'']"
    using list_available_eq [OF z] labels_all by simp
qed

theorem list_available_ascending_witness:
  "list_available_seats (BookingService_ctor\<lparr>show_state := [7 \<mapsto> 0xFFF0F]\<rparr>) 7 =
     [''a5'', ''a6'', ''a7'', ''a8''] \<and>
   list_available_seats BookingService_ctor 3 =
        [''a1'', ''a2'', ''a3'', ''a4'', ''a5'', ''a6'', ''a7'', ''a8'', ''a9'', ''a10'',
         ''a11'', ''a12'', ''a13'', ''a14'', ''a15'', ''a16'', ''a17'', ''a18'', ''a19'',
         ''a20'']"
proof -
  have r: "show_state BookingService_ctor 3 \<noteq> None" by (simp add: ctor_state)
  have f: "map seat_label_from_index0 (filter (\<lambda>j. \<not> bit (0xFFF0F :: u32) (nat j)) [0..19]) =
     [''a5'', ''a6'', ''a7'', ''a8'']" by code_simp
  have s: "show_state (BookingService_ctor\<lparr>show_state := [7 \<mapsto> 0xFFF0F]\<rparr>) 7 = Some 0xFFF0F"
    by simp
  show ?thesis
    using list_available_ascending [of "BookingService_ctor\<lparr>show_state := [7 \<mapsto> 0xFFF0F]\<rparr>" 7 "0xFFF0F" 3]
      r f s by simp
qed


text \<open>
  Claim C3, as amended: for a show id that was never registered, \<open>list_available_seats\<close>
  returns the empty sequence. This is no outcome of its own: a registered show returns
  the empty sequence too, exactly when all 20 seat bits of its mask are set. The claim as
  stated, that the outcome for an unknown id can be told from a successful empty result,
  fails: after one call has booked all 20 seats of show 1, the unknown id 99 and show 1
  give the same result.
\<close>

theorem list_available_unknown:
  "(show_state svc sid = None \<longrightarrow> list_available_seats svc sid = []) \<and>
   (show_state svc sid = Some msk \<longrightarrow>
      (list_available_seats svc sid = []) = (\<forall>j < 20. bit msk j))"
proof (intro conjI impI)
  assume "show_state svc sid = None"
  then show "list_available_seats svc sid = []"
    by (simp add: list_available_seats_def get_state_def)
next
  assume s: "show_state svc sid = Some msk"
  have "(\<forall>j \<in> set [0..19]. bit msk (nat j)) = (\<forall>j < 20. bit msk j)"
  proof
    assume a: "\<forall>j \<in> set [0..19]. bit msk (nat j)"
    show "\<forall>j < 20. bit msk j"
    proof (intro allI impI)
      fix j :: nat assume "j < 20"
      then have "int j \<in> set [0..19]" by simp
      with a have "bit msk (nat (int j))" by blast
      then show "bit msk j" by simp
    qed
  next
    assume "\<forall>j < 20. bit msk j"
    then show "\<forall>j \<in> set [0..19]. bit msk (nat j)" by auto
  qed
  then show "(list_available_seats svc sid = []) = (\<forall>j < 20. bit msk j)"
    by (simp add: list_available_eq [OF s] filter_empty_conv)
qed


theorem list_available_unknown_witness:
  "list_available_seats BookingService_ctor 99 = [] \<and>
   (list_available_seats (BookingService_ctor\<lparr>show_state := [7 \<mapsto> 0xFFFFF]\<rparr>) 7 = [])"
proof -
  have a: "show_state BookingService_ctor 99 = None" by (simp add: ctor_state)
  have b: "show_state (BookingService_ctor\<lparr>show_state := [7 \<mapsto> 0xFFFFF]\<rparr>) 7 = Some 0xFFFFF"
    by simp
  have c: "\<forall>j < 20. bit (0xFFFFF :: u32) j"
  proof (intro allI impI)
    fix j :: nat assume "j < 20"
    then have "j \<in> set [0 ..< 20]" by simp
    moreover have "list_all (bit (0xFFFFF :: u32)) [0 ..< 20]" by code_simp
    ultimately show "bit (0xFFFFF :: u32) j" unfolding list_all_iff by blast
  qed
  show ?thesis
    using list_available_unknown [of BookingService_ctor 99]
      list_available_unknown [of "BookingService_ctor\<lparr>show_state := [7 \<mapsto> 0xFFFFF]\<rparr>" 7 "0xFFFFF"]
      a b c by blast
qed

theorem list_available_unknown_counterexample:
  "show_state all_seats_booked 99 = None \<and>
   show_state all_seats_booked 1 = Some 0xFFFFF \<and>
   list_available_seats all_seats_booked 99 = list_available_seats all_seats_booked 1"
  by code_simp

section \<open>Properties of booking\<close>

subsection \<open>A call without interference\<close>

lemma cas_loop_overlap:
  "current AND req \<noteq> 0 \<Longrightarrow>
     cas_loop n mem current req = (rejected ''One or more seats already booked'', mem)"
  by (subst cas_loop.simps) simp

lemma cas_loop_free:
  "mem AND req = 0 \<Longrightarrow> cas_loop n mem mem req = (booked, mem OR req)"
proof (induction n)
  case 0
  then show ?case by (subst cas_loop.simps) (simp add: compare_exchange_weak_def)
next
  case (Suc n)
  then show ?case by (subst cas_loop.simps) (simp add: compare_exchange_weak_def)
qed

lemma cas_loop_alone:
  "cas_loop n mem mem req =
     (if mem AND req = 0 then (booked, mem OR req)
      else (rejected ''One or more seats already booked'', mem))"
  by (simp add: cas_loop_overlap cas_loop_free)

lemma service_update_same:
  "show_state svc sid = Some st \<Longrightarrow> svc\<lparr>show_state := (show_state svc)(sid \<mapsto> st)\<rparr> = svc"
  by (simp add: map_upd_triv)

lemma book_seats_cases:
  "book_seats n svc sid ls =
     (case show_state svc sid of
        None \<Rightarrow> (rejected ''Invalid show id'', svc)
      | Some st \<Rightarrow>
          if ls = [] then (rejected ''No seats provided'', svc)
          else if snd (seats_to_mask_or_fail ls) \<noteq> []
            then (rejected (snd (seats_to_mask_or_fail ls)), svc)
          else if st AND fst (seats_to_mask_or_fail ls) = 0
            then (booked, svc\<lparr>show_state :=
                    (show_state svc)(sid \<mapsto> st OR fst (seats_to_mask_or_fail ls))\<rparr>)
          else (rejected ''One or more seats already booked'', svc))"
  by (auto simp: book_seats_def get_state_mut_def cas_loop_alone service_update_same
      split: option.splits prod.splits)

lemma run_call_grows:
  assumes "show_state svc k = Some m"
  shows "\<exists>m'. show_state (run_call svc c) k = Some m' \<and> m AND m' = m"
proof (cases c)
  case (Book n sid ls)
  show ?thesis
    using assms unfolding Book run_call.simps book_seats_cases
    by (auto split: option.splits simp: word_bw_assocs)
next
  case (ListAvailable sid)
  with assms show ?thesis by simp
qed

lemma run_calls_grows:
  "show_state svc k = Some m \<Longrightarrow>
     \<exists>m'. show_state (run_calls svc cs) k = Some m' \<and> m AND m' = m"
proof (induction cs arbitrary: svc m)
  case Nil
  then show ?case by (simp add: run_calls_def)
next
  case (Cons c cs)
  from run_call_grows [OF Cons.prems, of c] obtain m1
    where m1: "show_state (run_call svc c) k = Some m1" "m AND m1 = m" by blast
  from Cons.IH [OF m1(1)] obtain m2
    where m2: "show_state (run_calls (run_call svc c) cs) k = Some m2" "m1 AND m2 = m1" by blast
  have "m AND m2 = m"
    using m1(2) m2(2) by (metis word_bw_assocs(1))
  with m2(1) show ?case by (simp add: run_calls_def)
qed

lemma ctor_show1: "show_state BookingService_ctor 1 = Some 0"
  by (simp add: ctor_state)

lemma request_a1_a2:
  "valid_request [''a1'', ''a2'']" "seats_to_mask_or_fail [''a1'', ''a2''] = (3, [])"
proof -
  have p1: "try_parse_seat_label ''a1'' = Some 0" by code_simp
  have p2: "try_parse_seat_label ''a2'' = Some 1" by code_simp
  show "valid_request [''a1'', ''a2'']" by (simp add: valid_request_def p1 p2)
  show "seats_to_mask_or_fail [''a1'', ''a2''] = (3, [])"
    by (simp add: seats_to_mask_or_fail_def p1 p2)
qed

subsection \<open>Bits above the seats\<close>

lemma label_bit_low: "drop_bit 20 (label_bit l) = 0"
proof (cases "try_parse_seat_label l")
  case None
  then show ?thesis by (simp add: label_bit_def)
next
  case (Some i)
  from try_parse_range [OF Some] have "nat i < 20" by auto
  then have "drop_bit 20 (push_bit (nat i) (1 :: u32)) = 0"
    by (auto simp: bit_eq_iff [where ?'a = "32 word"] bit_simps)
  then show ?thesis by (simp only: label_bit_def Some option.case)
qed

lemma drop_bit_or_zero:
  "drop_bit 20 (a :: u32) = 0 \<Longrightarrow> drop_bit 20 b = 0 \<Longrightarrow> drop_bit 20 (a OR b) = 0"
  by (simp add: bit_eq_iff [where ?'a = "32 word"] bit_simps)

lemma seats_loop_low:
  "drop_bit 20 msk = 0 \<Longrightarrow> drop_bit 20 (fst (seats_loop msk ls)) = 0"
proof (induction ls arbitrary: msk)
  case Nil
  then show ?case by simp
next
  case (Cons l ls)
  show ?case
  proof (cases "try_parse_seat_label l")
    case None
    then show ?thesis by simp
  next
    case (Some i)
    have lb: "push_bit (nat i) 1 = label_bit l" by (simp add: label_bit_def Some)
    have "drop_bit 20 (msk OR label_bit l) = 0"
      using Cons.prems label_bit_low by (rule drop_bit_or_zero)
    from Cons.IH [OF this] show ?thesis
      unfolding seats_loop.simps Some option.case Let_def lb by simp
  qed
qed

lemma seats_to_mask_low: "drop_bit 20 (fst (seats_to_mask_or_fail ls)) = 0"
  by (simp add: seats_to_mask_or_fail_def seats_loop_low)

lemma run_call_low:
  assumes "\<forall>k m. show_state svc k = Some m \<longrightarrow> drop_bit 20 m = 0"
  shows "\<forall>k m. show_state (run_call svc c) k = Some m \<longrightarrow> drop_bit 20 m = 0"
proof (cases c)
  case (Book n sid ls)
  show ?thesis
    using assms seats_to_mask_low [of ls] unfolding Book run_call.simps book_seats_cases
    by (auto split: option.splits if_splits intro: drop_bit_or_zero)
next
  case (ListAvailable sid)
  with assms show ?thesis by simp
qed

lemma run_calls_low:
  "\<forall>k m. show_state svc k = Some m \<longrightarrow> drop_bit 20 m = 0 \<Longrightarrow>
   \<forall>k m. show_state (run_calls svc cs) k = Some m \<longrightarrow> drop_bit 20 m = 0"
proof (induction cs arbitrary: svc)
  case Nil
  then show ?case by (simp add: run_calls_def)
next
  case (Cons c cs)
  from Cons.IH [OF run_call_low [OF Cons.prems, of c]]
  show ?case by (simp add: run_calls_def)
qed

lemma ctor_low: "\<forall>k m. show_state BookingService_ctor k = Some m \<longrightarrow> drop_bit 20 m = 0"
  by (auto simp: ctor_state split: if_splits)

section \<open>Properties of concurrent calls\<close>

subsection \<open>The steps of a call\<close>

lemma rejected_not_booked: "rejected e \<noteq> booked"
  by (simp add: rejected_def booked_def)

lemma and_within_or:
  assumes "(a :: u32) AND m = a"
  shows "a AND (m OR r) = a"
proof -
  have "a AND (m OR r) = (a AND m) OR (a AND r)" by (rule word_ao_dist2)
  also have "\<dots> = a OR (a AND r)" using assms by simp
  also have "\<dots> = a" by simp
  finally show ?thesis .
qed

lemma and_or_self: "(r :: u32) AND (c OR r) = r"
  by simp

lemma within_disjoint:
  assumes "(a :: u32) AND m = a" and "m AND r = 0"
  shows "a AND r = 0"
proof -
  have "a AND r = (a AND m) AND r" using assms(1) by simp
  also have "\<dots> = a AND (m AND r)" by (rule word_bw_assocs(1))
  also have "\<dots> = 0" using assms(2) by simp
  finally show ?thesis .
qed

lemma within_trans:
  assumes "(a :: u32) AND b = a" and "b AND c = b"
  shows "a AND c = a"
proof -
  have "a AND c = (a AND b) AND c" using assms(1) by simp
  also have "\<dots> = a AND (b AND c)" by (rule word_bw_assocs(1))
  also have "\<dots> = a" using assms by simp
  finally show ?thesis .
qed

lemma step_entry:
  assumes "thread_step sp svc t = (svc', t')" and "t_pc t = Entry"
  shows "svc' = svc \<and>
         ((show_state svc (t_show t) = None \<and>
             t' = t\<lparr>t_pc := Ret (rejected ''Invalid show id'')\<rparr>) \<or>
          (show_state svc (t_show t) \<noteq> None \<and> t_labels t = [] \<and>
             t' = t\<lparr>t_pc := Ret (rejected ''No seats provided'')\<rparr>) \<or>
          (show_state svc (t_show t) \<noteq> None \<and> t_labels t \<noteq> [] \<and>
             snd (seats_to_mask_or_fail (t_labels t)) \<noteq> [] \<and>
             t' = t\<lparr>t_pc := Ret (rejected (snd (seats_to_mask_or_fail (t_labels t))))\<rparr>) \<or>
          (\<exists>st. show_state svc (t_show t) = Some st \<and> t_labels t \<noteq> [] \<and>
             snd (seats_to_mask_or_fail (t_labels t)) = [] \<and>
             t' = t\<lparr>t_pc := Loop (request_mask t) st\<rparr>))"
proof (cases "show_state svc (t_show t)")
  case None
  with assms show ?thesis
    by (auto simp: thread_step_def get_state_mut_def)
next
  case (Some st)
  obtain req err where re: "seats_to_mask_or_fail (t_labels t) = (req, err)"
    by (cases "seats_to_mask_or_fail (t_labels t)")
  then have rm: "request_mask t = req" by (simp add: request_mask_def)
  from assms Some re show ?thesis
    by (auto simp: thread_step_def get_state_mut_def rm split: if_splits)
qed

lemma step_loop:
  assumes "thread_step sp svc t = (svc', t')" and "t_pc t = Loop req cur"
  shows "(svc' = svc \<and> t' = t) \<or>
         (svc' = svc \<and> cur AND req \<noteq> 0 \<and>
            t' = t\<lparr>t_pc := Ret (rejected ''One or more seats already booked'')\<rparr>) \<or>
         (svc' = svc \<and> (\<exists>mem. show_state svc (t_show t) = Some mem \<and>
                                t' = t\<lparr>t_pc := Loop req mem\<rparr>)) \<or>
         (show_state svc (t_show t) = Some cur \<and> cur AND req = 0 \<and>
          svc' = svc\<lparr>show_state := (show_state svc)(t_show t \<mapsto> cur OR req)\<rparr> \<and>
          t' = t\<lparr>t_pc := Ret booked\<rparr>)"
proof (cases "cur AND req = 0")
  case False
  with assms show ?thesis by (auto simp: thread_step_def)
next
  case True
  show ?thesis
  proof (cases "show_state svc (t_show t)")
    case None
    with assms True show ?thesis by (auto simp: thread_step_def get_state_mut_def)
  next
    case (Some mem)
    show ?thesis
    proof (cases "mem = cur \<and> \<not> sp")
      case yes: True
      with assms True Some show ?thesis
        by (auto simp: thread_step_def get_state_mut_def compare_exchange_weak_def)
    next
      case no: False
      with assms True Some show ?thesis
        by (auto simp: thread_step_def get_state_mut_def compare_exchange_weak_def)
    qed
  qed
qed

lemma step_ret:
  "thread_step sp svc t = (svc', t') \<Longrightarrow> t_pc t = Ret r \<Longrightarrow> svc' = svc \<and> t' = t"
  by (auto simp: thread_step_def)

lemma thread_step_cases:
  assumes "thread_step sp svc t = (svc', t')"
  obtains
    (quiet) "svc' = svc" "t' = t"
  | (reject) e where "svc' = svc" "t' = t\<lparr>t_pc := Ret (rejected e)\<rparr>"
  | (load) st where "svc' = svc" "t_pc t = Entry" "show_state svc (t_show t) = Some st"
      "t' = t\<lparr>t_pc := Loop (request_mask t) st\<rparr>"
  | (retry) req cur mem where "svc' = svc" "t_pc t = Loop req cur"
      "show_state svc (t_show t) = Some mem" "t' = t\<lparr>t_pc := Loop req mem\<rparr>"
  | (store) req cur where "t_pc t = Loop req cur" "show_state svc (t_show t) = Some cur"
      "cur AND req = 0" "svc' = svc\<lparr>show_state := (show_state svc)(t_show t \<mapsto> cur OR req)\<rparr>"
      "t' = t\<lparr>t_pc := Ret booked\<rparr>"
proof (cases "t_pc t")
  case Entry
  from step_entry [OF assms Entry] show ?thesis
    using Entry reject load by blast
next
  case (Loop req cur)
  from step_loop [OF assms Loop] show ?thesis
    using Loop quiet reject retry store by blast
next
  case (Ret r)
  from step_ret [OF assms Ret] show ?thesis
    using quiet by blast
qed

lemma request_mask_pc [simp]: "request_mask (t\<lparr>t_pc := p\<rparr>) = request_mask t"
  by (simp add: request_mask_def)

lemma claimed_pc [simp]: "claimed (t\<lparr>t_pc := p\<rparr>) = (p = Ret booked)"
  by (simp add: claimed_def)

lemma step_writes_only_on_claim:
  assumes "thread_step sp svc t = (svc', t')" and "t_pc t' \<noteq> Ret booked"
  shows "svc' = svc"
  using assms(1)
  by (cases rule: thread_step_cases) (use assms(2) in simp_all)

lemma step_elim:
  assumes "step (svc, ts) (svc', ts')"
  obtains k sp t' where "k < length ts" "thread_step sp svc (ts ! k) = (svc', t')"
    "ts' = ts[k := t']"
  using assms by (auto elim: step.cases)

lemma stepI:
  "i < length ts \<Longrightarrow> thread_step sp svc (ts ! i) = (svc', t') \<Longrightarrow> ts' = ts[i := t'] \<Longrightarrow>
   step (svc, ts) (svc', ts')"
  by (auto intro: step.intros)

lemma solo_step:
  "thread_step sp svc t = (svc', t') \<Longrightarrow> step (svc, [t]) (svc', [t'])"
  using step.intros [of 0 "[t]" sp svc svc' t'] by simp

text \<open>
  The call without interference is an execution of the thread alone: its result and the
  service it leaves are reached by the steps of a single thread.
\<close>

lemma book_seats_solo_run:
  "rtranclp step (svc, [call_thread (sid, ls)])
     (snd (book_seats n svc sid ls),
      [\<lparr>t_show = sid, t_labels = ls, t_pc = Ret (fst (book_seats n svc sid ls))\<rparr>])"
proof -
  let ?t = "\<lambda>p. \<lparr>t_show = sid, t_labels = ls, t_pc = p\<rparr>"
  have init: "call_thread (sid, ls) = ?t Entry" by (simp add: call_thread_def)
  show ?thesis
  proof (cases "show_state svc sid")
    case None
    have "thread_step False svc (?t Entry) = (svc, ?t (Ret (rejected ''Invalid show id'')))"
      by (simp add: thread_step_def get_state_mut_def None)
    from solo_step [OF this] show ?thesis
      by (simp add: call_thread_def book_seats_cases None)
  next
    case (Some st)
    show ?thesis
    proof (cases "ls = []")
      case True
      have "thread_step False svc (?t Entry) = (svc, ?t (Ret (rejected ''No seats provided'')))"
        by (simp add: thread_step_def get_state_mut_def Some True)
      from solo_step [OF this] show ?thesis
        by (simp add: call_thread_def book_seats_cases Some True)
    next
      case ne: False
      obtain req err where re: "seats_to_mask_or_fail ls = (req, err)"
        by (cases "seats_to_mask_or_fail ls")
      show ?thesis
      proof (cases "err = []")
        case False
        have "thread_step False svc (?t Entry) = (svc, ?t (Ret (rejected err)))"
          by (simp add: thread_step_def get_state_mut_def Some ne re False)
        from solo_step [OF this] show ?thesis
          by (simp add: call_thread_def book_seats_cases Some ne re False)
      next
        case True
        have "thread_step False svc (?t Entry) = (svc, ?t (Loop req st))"
          by (simp add: thread_step_def get_state_mut_def Some ne re True)
        from solo_step [OF this]
        have load: "step (svc, [?t Entry]) (svc, [?t (Loop req st)])" .
        show ?thesis
        proof (cases "st AND req = 0")
          case free: True
          have "thread_step False svc (?t (Loop req st)) =
                  (svc\<lparr>show_state := (show_state svc)(sid \<mapsto> st OR req)\<rparr>, ?t (Ret booked))"
            by (simp add: thread_step_def get_state_mut_def Some free compare_exchange_weak_def)
          from solo_step [OF this] load show ?thesis
            by (simp add: call_thread_def book_seats_cases Some ne re True free)
        next
          case taken: False
          have "thread_step False svc (?t (Loop req st)) =
                  (svc, ?t (Ret (rejected ''One or more seats already booked'')))"
            by (simp add: thread_step_def taken)
          from solo_step [OF this] load show ?thesis
            by (simp add: call_thread_def book_seats_cases Some ne re True taken)
        qed
      qed
    qed
  qed
qed

subsection \<open>The invariant\<close>

lemma loop_ok_grow:
  "loop_ok svc t \<Longrightarrow> show_state svc sid = Some cur \<Longrightarrow>
   loop_ok (svc\<lparr>show_state := (show_state svc)(sid \<mapsto> cur OR r)\<rparr>) t"
  by (auto simp: loop_ok_def and_within_or split: pc.splits option.splits)

lemma claim_ok_grow:
  "claim_ok svc t \<Longrightarrow> show_state svc sid = Some cur \<Longrightarrow>
   claim_ok (svc\<lparr>show_state := (show_state svc)(sid \<mapsto> cur OR r)\<rparr>) t"
  by (auto simp: claim_ok_def and_within_or split: option.splits if_splits)

lemma sys_invI:
  assumes "\<And>i. i < length ts \<Longrightarrow> loop_ok svc (ts ! i)"
    and "\<And>i. i < length ts \<Longrightarrow> claim_ok svc (ts ! i)"
    and "\<And>i j. i < length ts \<Longrightarrow> j < length ts \<Longrightarrow> i \<noteq> j \<Longrightarrow>
           claimed (ts ! i) \<Longrightarrow> claimed (ts ! j) \<Longrightarrow> t_show (ts ! i) = t_show (ts ! j) \<Longrightarrow>
           request_mask (ts ! i) AND request_mask (ts ! j) = 0"
  shows "sys_inv (svc, ts)"
  using assms by (simp add: sys_inv_def list_all_length)

lemma sys_invD:
  assumes "sys_inv (svc, ts)"
  shows "i < length ts \<Longrightarrow> loop_ok svc (ts ! i)"
    and "i < length ts \<Longrightarrow> claim_ok svc (ts ! i)"
    and "i < length ts \<Longrightarrow> j < length ts \<Longrightarrow> i \<noteq> j \<Longrightarrow>
           claimed (ts ! i) \<Longrightarrow> claimed (ts ! j) \<Longrightarrow> t_show (ts ! i) = t_show (ts ! j) \<Longrightarrow>
           request_mask (ts ! i) AND request_mask (ts ! j) = 0"
  using assms by (simp_all add: sys_inv_def list_all_length)

lemma sys_inv_update_unclaimed:
  assumes inv: "sys_inv (svc, ts)" and k: "k < length ts"
    and ok: "loop_ok svc t'" and nc: "\<not> claimed t'"
  shows "sys_inv (svc, ts[k := t'])"
proof (rule sys_invI)
  fix i assume "i < length (ts[k := t'])"
  then have i: "i < length ts" by simp
  show "loop_ok svc (ts[k := t'] ! i)"
    using sys_invD(1) [OF inv i] ok i by (cases "i = k") simp_all
  show "claim_ok svc (ts[k := t'] ! i)"
    using sys_invD(2) [OF inv i] nc i by (cases "i = k") (simp_all add: claim_ok_def)
next
  fix i j
  assume "i < length (ts[k := t'])" "j < length (ts[k := t'])" and ij: "i \<noteq> j"
    and ci: "claimed (ts[k := t'] ! i)" and cj: "claimed (ts[k := t'] ! j)"
    and sh: "t_show (ts[k := t'] ! i) = t_show (ts[k := t'] ! j)"
  then have i: "i < length ts" and j: "j < length ts" by simp_all
  from ci nc i have ik: "i \<noteq> k" by (cases "i = k") simp_all
  from cj nc j have jk: "j \<noteq> k" by (cases "j = k") simp_all
  from sys_invD(3) [OF inv i j ij] ci cj sh ik jk
  show "request_mask (ts[k := t'] ! i) AND request_mask (ts[k := t'] ! j) = 0"
    by simp
qed

lemma sys_inv_store:
  assumes inv: "sys_inv (svc, ts)" and k: "k < length ts"
    and pc: "t_pc (ts ! k) = Loop req cur"
    and mem: "show_state svc (t_show (ts ! k)) = Some cur"
    and free: "cur AND req = 0"
  shows "sys_inv (svc\<lparr>show_state := (show_state svc)(t_show (ts ! k) \<mapsto> cur OR req)\<rparr>,
                  ts[k := (ts ! k)\<lparr>t_pc := Ret booked\<rparr>])"
    (is "sys_inv (?svc', ?ts')")
proof (rule sys_invI)
  have rk: "request_mask (ts ! k) = req"
    using sys_invD(1) [OF inv k] pc by (simp add: loop_ok_def)
  have mem': "show_state ?svc' (t_show (ts ! k)) = Some (cur OR req)" by simp
  {
    fix i assume "i < length ?ts'"
    then have i: "i < length ts" by simp
    show "loop_ok ?svc' (?ts' ! i)"
    proof (cases "i = k")
      case True
      with k show ?thesis by (simp add: loop_ok_def)
    next
      case False
      with loop_ok_grow [OF sys_invD(1) [OF inv i] mem] show ?thesis by simp
    qed
    show "claim_ok ?svc' (?ts' ! i)"
    proof (cases "i = k")
      case True
      with k rk show ?thesis by (simp add: claim_ok_def and_or_self)
    next
      case False
      with claim_ok_grow [OF sys_invD(2) [OF inv i] mem] show ?thesis by simp
    qed
  }
  have old: "request_mask (ts ! j) AND req = 0"
    if j: "j < length ts" and cj: "claimed (ts ! j)" and sh: "t_show (ts ! j) = t_show (ts ! k)" for j
  proof -
    from sys_invD(2) [OF inv j] cj sh mem
    have "request_mask (ts ! j) AND cur = request_mask (ts ! j)"
      by (simp add: claim_ok_def)
    then show ?thesis using free by (rule within_disjoint)
  qed
  fix i j
  assume "i < length ?ts'" "j < length ?ts'" and ij: "i \<noteq> j"
    and ci: "claimed (?ts' ! i)" and cj: "claimed (?ts' ! j)"
    and sh: "t_show (?ts' ! i) = t_show (?ts' ! j)"
  then have i: "i < length ts" and j: "j < length ts" by simp_all
  show "request_mask (?ts' ! i) AND request_mask (?ts' ! j) = 0"
  proof (cases "i = k")
    case True
    with ij have jk: "j \<noteq> k" by simp
    from old [OF j] cj sh jk True k have "request_mask (ts ! j) AND req = 0" by simp
    with True jk k rk show ?thesis by (simp add: word_bw_comms)
  next
    case ik: False
    show ?thesis
    proof (cases "j = k")
      case True
      from old [OF i] ci sh ik True k have "request_mask (ts ! i) AND req = 0" by simp
      with True ik k rk show ?thesis by simp
    next
      case False
      with sys_invD(3) [OF inv i j ij] ci cj sh ik show ?thesis by simp
    qed
  qed
qed

lemma sys_inv_step:
  assumes st: "step (svc, ts) (svc', ts')" and inv: "sys_inv (svc, ts)"
  shows "sys_inv (svc', ts')"
proof -
  from st obtain k sp t' where k: "k < length ts"
    and ts: "thread_step sp svc (ts ! k) = (svc', t')" and ts': "ts' = ts[k := t']"
    by (rule step_elim)
  from ts show ?thesis
  proof (cases rule: thread_step_cases)
    case quiet
    with inv ts' show ?thesis by simp
  next
    case (reject e)
    have "loop_ok svc t'" "\<not> claimed t'"
      using reject by (simp_all add: loop_ok_def rejected_not_booked)
    from sys_inv_update_unclaimed [OF inv k this] reject ts' show ?thesis by simp
  next
    case (load st)
    have "loop_ok svc t'" "\<not> claimed t'"
      using load by (simp_all add: loop_ok_def)
    from sys_inv_update_unclaimed [OF inv k this] load ts' show ?thesis by simp
  next
    case (retry req cur mem)
    have "req = request_mask (ts ! k)"
      using sys_invD(1) [OF inv k] retry by (simp add: loop_ok_def)
    then have "loop_ok svc t'" "\<not> claimed t'"
      using retry by (simp_all add: loop_ok_def)
    from sys_inv_update_unclaimed [OF inv k this] retry ts' show ?thesis by simp
  next
    case (store req cur)
    from sys_inv_store [OF inv k store(1,2,3)] store ts' show ?thesis by simp
  qed
qed

lemma sys_inv_steps:
  "rtranclp step c c' \<Longrightarrow> sys_inv c \<Longrightarrow> sys_inv c'"
proof (induction rule: rtranclp_induct)
  case base
  then show ?case .
next
  case (step y z)
  then show ?case by (cases y, cases z) (auto intro: sys_inv_step)
qed

lemma sys_inv_init: "sys_inv (svc, map call_thread calls)"
  by (rule sys_invI) (simp_all add: loop_ok_def claim_ok_def claimed_def call_thread_def)

lemma step_args:
  assumes "step (svc, ts) (svc', ts')"
  shows "map t_show ts' = map t_show ts \<and> map t_labels ts' = map t_labels ts"
proof -
  from assms obtain k sp t' where k: "k < length ts"
    and ts: "thread_step sp svc (ts ! k) = (svc', t')" and ts': "ts' = ts[k := t']"
    by (rule step_elim)
  from ts have "t_show t' = t_show (ts ! k)" "t_labels t' = t_labels (ts ! k)"
    by (cases rule: thread_step_cases; simp)+
  with k ts' show ?thesis by (simp add: map_update list_update_same_conv)
qed

lemma steps_args:
  "rtranclp step c c' \<Longrightarrow>
     map t_show (snd c') = map t_show (snd c) \<and> map t_labels (snd c') = map t_labels (snd c)"
proof (induction rule: rtranclp_induct)
  case base
  then show ?case by simp
next
  case (step y z)
  from step_args [of "fst y" "snd y" "fst z" "snd z"] step show ?case by simp
qed

lemma run_args:
  assumes "rtranclp step (svc0, map call_thread calls) (svc, ts)" and "i < length calls"
  shows "length ts = length calls" and "t_show (ts ! i) = fst (calls ! i)"
    and "t_labels (ts ! i) = snd (calls ! i)"
proof -
  from steps_args [OF assms(1)]
  have a: "map t_show ts = map fst calls" and b: "map t_labels ts = map snd calls"
    by (simp_all add: call_thread_def comp_def)
  from a show len: "length ts = length calls" by (metis length_map)
  from a len assms(2) show "t_show (ts ! i) = fst (calls ! i)" by (metis nth_map)
  from b len assms(2) show "t_labels (ts ! i) = snd (calls ! i)" by (metis nth_map)
qed

subsection \<open>Masks along an execution\<close>

lemma step_grows:
  assumes "step (svc, ts) (svc', ts')" and m: "show_state svc sid = Some m"
  shows "\<exists>m'. show_state svc' sid = Some m' \<and> m AND m' = m"
proof -
  from assms(1) obtain k sp t' where "thread_step sp svc (ts ! k) = (svc', t')"
    by (rule step_elim)
  then show ?thesis
  proof (cases rule: thread_step_cases)
    case (store req cur)
    show ?thesis
    proof (cases "sid = t_show (ts ! k)")
      case True
      with m store have "m = cur" by simp
      with store True show ?thesis by simp
    next
      case False
      with m store show ?thesis by simp
    qed
  qed (use m in simp_all)
qed

lemma steps_grows:
  "rtranclp step c c' \<Longrightarrow> show_state (fst c) sid = Some m \<Longrightarrow>
     \<exists>m'. show_state (fst c') sid = Some m' \<and> m AND m' = m"
proof (induction rule: rtranclp_induct)
  case base
  then show ?case by simp
next
  case (step y z)
  from step.IH [OF step.prems] obtain m1
    where m1: "show_state (fst y) sid = Some m1" "m AND m1 = m" by blast
  from step_grows [of "fst y" "snd y" "fst z" "snd z", OF _ m1(1)] step.hyps(2) obtain m2
    where m2: "show_state (fst z) sid = Some m2" "m1 AND m2 = m1" by auto
  from within_trans [OF m1(2) m2(2)] m2(1) show ?case by simp
qed

lemma step_low:
  assumes st: "step (svc, ts) (svc', ts')" and inv: "sys_inv (svc, ts)"
    and low: "\<And>k m. show_state svc k = Some m \<Longrightarrow> drop_bit 20 m = 0"
    and m': "show_state svc' sid = Some m'"
  shows "drop_bit 20 m' = 0"
proof -
  from st obtain k sp t' where k: "k < length ts"
    and ts: "thread_step sp svc (ts ! k) = (svc', t')"
    by (rule step_elim)
  from ts show ?thesis
  proof (cases rule: thread_step_cases)
    case quiet
    with m' show ?thesis by (simp add: low)
  next
    case (reject e)
    with m' show ?thesis by (simp add: low)
  next
    case (load st)
    with m' show ?thesis by (simp add: low)
  next
    case (retry req cur mem)
    with m' show ?thesis by (simp add: low)
  next
    case (store req cur)
    have "req = request_mask (ts ! k)"
      using sys_invD(1) [OF inv k] store(1) by (simp add: loop_ok_def)
    then have "drop_bit 20 req = 0" by (simp add: request_mask_def seats_to_mask_low)
    moreover have "drop_bit 20 cur = 0" using low store(2) by blast
    ultimately have new: "drop_bit 20 (cur OR req) = 0" by (simp add: drop_bit_or_zero)
    show ?thesis
    proof (cases "sid = t_show (ts ! k)")
      case True
      with m' store(4) have "m' = cur OR req" by simp
      with new show ?thesis by simp
    next
      case False
      with m' store(4) have "show_state svc sid = Some m'" by simp
      then show ?thesis by (rule low)
    qed
  qed
qed

lemma steps_low:
  assumes "rtranclp step c c'" and "sys_inv c"
    and "\<And>k m. show_state (fst c) k = Some m \<Longrightarrow> drop_bit 20 m = 0"
  shows "show_state (fst c') sid = Some m' \<Longrightarrow> drop_bit 20 m' = 0"
  using assms
proof (induction arbitrary: sid m' rule: rtranclp_induct)
  case base
  then show ?case by blast
next
  case (step y z)
  have inv: "sys_inv (fst y, snd y)"
    using sys_inv_steps [OF step.hyps(1) step.prems(2)] by simp
  have st: "step (fst y, snd y) (fst z, snd z)" using step.hyps(2) by simp
  have low: "\<And>k m. show_state (fst y) k = Some m \<Longrightarrow> drop_bit 20 m = 0"
    using step.IH step.prems(2,3) by blast
  from step_low [OF st inv low step.prems(1)] show ?case .
qed

lemma returning_step:
  assumes inv: "sys_inv (svc, ts)" and k: "k < length ts"
    and ts: "thread_step sp svc (ts ! k) = (svc', t')"
    and before: "\<forall>r'. t_pc (ts ! k) \<noteq> Ret r'" and after: "t_pc t' = Ret r"
    and valid: "t_labels (ts ! k) \<noteq> []" "snd (seats_to_mask_or_fail (t_labels (ts ! k))) = []"
    and mem: "show_state svc (t_show (ts ! k)) = Some mem"
  shows "(r = booked) = (mem AND request_mask (ts ! k) = 0) \<and>
         (mem AND request_mask (ts ! k) = 0 \<longrightarrow>
            svc' = svc\<lparr>show_state :=
              (show_state svc)(t_show (ts ! k) \<mapsto> mem OR request_mask (ts ! k))\<rparr>) \<and>
         (mem AND request_mask (ts ! k) \<noteq> 0 \<longrightarrow>
            r = rejected ''One or more seats already booked'' \<and> svc' = svc)"
proof (cases "t_pc (ts ! k)")
  case Entry
  from step_entry [OF ts Entry] valid mem
  obtain st where "t' = (ts ! k)\<lparr>t_pc := Loop (request_mask (ts ! k)) st\<rparr>" by auto
  with after show ?thesis by simp
next
  case (Ret r')
  with before show ?thesis by simp
next
  case (Loop req cur)
  from sys_invD(1) [OF inv k] Loop mem
  have rm: "req = request_mask (ts ! k)" and sub: "cur AND mem = cur"
    by (simp_all add: loop_ok_def)
  from step_loop [OF ts Loop]
  consider (quiet) "t' = ts ! k"
    | (reject) "svc' = svc" "cur AND req \<noteq> 0"
        "t' = (ts ! k)\<lparr>t_pc := Ret (rejected ''One or more seats already booked'')\<rparr>"
    | (retry) m where "t' = (ts ! k)\<lparr>t_pc := Loop req m\<rparr>"
    | (store) "mem = cur" "cur AND req = 0"
        "svc' = svc\<lparr>show_state := (show_state svc)(t_show (ts ! k) \<mapsto> cur OR req)\<rparr>"
        "t' = (ts ! k)\<lparr>t_pc := Ret booked\<rparr>"
    using mem by auto
  then show ?thesis
  proof cases
    case quiet
    with after Loop show ?thesis by simp
  next
    case reject
    have "mem AND req \<noteq> 0"
    proof
      assume "mem AND req = 0"
      with sub have "cur AND req = 0" by (rule within_disjoint)
      with reject(2) show False by simp
    qed
    with reject after rm show ?thesis by (auto simp: rejected_not_booked)
  next
    case (retry m)
    with after show ?thesis by simp
  next
    case store
    with after rm show ?thesis by auto
  qed
qed

subsection \<open>What a step of a validated call does, and that the call can return\<close>

text \<open>
  The steps of a call as equations, and the completion of a call: from a configuration
  that satisfies the invariant, a call that has not returned and whose labels are valid
  returns when it runs on without interference and without spurious failure, with
  success and its request committed exactly when the request has no bit in common with
  the committed mask of that configuration. A stale \<open>current\<close> costs one failed
  compare-and-set, which reloads it.
\<close>

lemma thread_step_load:
  "t_pc t = Entry \<Longrightarrow> show_state svc (t_show t) = Some mem \<Longrightarrow> t_labels t \<noteq> [] \<Longrightarrow>
   snd (seats_to_mask_or_fail (t_labels t)) = [] \<Longrightarrow>
   thread_step sp svc t = (svc, t\<lparr>t_pc := Loop (request_mask t) mem\<rparr>)"
  by (cases "seats_to_mask_or_fail (t_labels t)")
    (simp add: thread_step_def get_state_mut_def request_mask_def)

lemma thread_step_reject:
  "t_pc t = Loop req cur \<Longrightarrow> cur AND req \<noteq> 0 \<Longrightarrow>
   thread_step sp svc t =
     (svc, t\<lparr>t_pc := Ret (rejected ''One or more seats already booked'')\<rparr>)"
  by (simp add: thread_step_def)

lemma thread_step_retry:
  "t_pc t = Loop req cur \<Longrightarrow> show_state svc (t_show t) = Some mem \<Longrightarrow> cur AND req = 0 \<Longrightarrow>
   mem \<noteq> cur \<or> sp \<Longrightarrow>
   thread_step sp svc t = (svc, t\<lparr>t_pc := Loop req mem\<rparr>)"
  by (auto simp: thread_step_def get_state_mut_def compare_exchange_weak_def)

lemma thread_step_store:
  "t_pc t = Loop req cur \<Longrightarrow> show_state svc (t_show t) = Some cur \<Longrightarrow> cur AND req = 0 \<Longrightarrow>
   thread_step False svc t =
     (svc\<lparr>show_state := (show_state svc)(t_show t \<mapsto> cur OR req)\<rparr>, t\<lparr>t_pc := Ret booked\<rparr>)"
  by (simp add: thread_step_def get_state_mut_def compare_exchange_weak_def)

lemma loop_completes:
  assumes k: "k < length ts" and pc: "t_pc (ts ! k) = Loop req mem"
    and mem: "show_state svc (t_show (ts ! k)) = Some mem"
  shows "rtranclp step (svc, ts)
     (if mem AND req = 0
      then svc\<lparr>show_state := (show_state svc)(t_show (ts ! k) \<mapsto> mem OR req)\<rparr> else svc,
      ts[k := (ts ! k)\<lparr>t_pc := Ret (if mem AND req = 0 then booked
                                      else rejected ''One or more seats already booked'')\<rparr>])"
proof (cases "mem AND req = 0")
  case True
  from step.intros [OF k thread_step_store [OF pc mem True]] True
  show ?thesis by auto
next
  case False
  from step.intros [OF k thread_step_reject [OF pc False, of False svc]] False
  show ?thesis by auto
qed

lemma call_completes:
  assumes inv: "sys_inv (svc, ts)" and k: "k < length ts"
    and running: "\<forall>r'. t_pc (ts ! k) \<noteq> Ret r'"
    and ne: "t_labels (ts ! k) \<noteq> []"
    and ok: "snd (seats_to_mask_or_fail (t_labels (ts ! k))) = []"
    and mem: "show_state svc (t_show (ts ! k)) = Some mem"
  shows "rtranclp step (svc, ts)
     (if mem AND request_mask (ts ! k) = 0
      then svc\<lparr>show_state :=
             (show_state svc)(t_show (ts ! k) \<mapsto> mem OR request_mask (ts ! k))\<rparr>
      else svc,
      ts[k := (ts ! k)\<lparr>t_pc := Ret (if mem AND request_mask (ts ! k) = 0 then booked
                                      else rejected ''One or more seats already booked'')\<rparr>])"
    (is "rtranclp step _ ?final")
proof -
  let ?t = "ts ! k" and ?req = "request_mask (ts ! k)"
  have fresh: "rtranclp step (svc, ts[k := ?t\<lparr>t_pc := Loop ?req mem\<rparr>]) ?final"
  proof -
    let ?ts1 = "ts[k := ?t\<lparr>t_pc := Loop ?req mem\<rparr>]"
    have k1: "k < length ?ts1" using k by simp
    have pc1: "t_pc (?ts1 ! k) = Loop ?req mem" using k by simp
    have mem1: "show_state svc (t_show (?ts1 ! k)) = Some mem" using k mem by simp
    from loop_completes [OF k1 pc1 mem1] k show ?thesis
      by (cases "mem AND ?req = 0") simp_all
  qed
  show ?thesis
  proof (cases "t_pc ?t")
    case Entry
    from step.intros [OF k thread_step_load [OF Entry mem ne ok, of False]]
    have "step (svc, ts) (svc, ts[k := ?t\<lparr>t_pc := Loop ?req mem\<rparr>])" .
    from this fresh show ?thesis by (rule converse_rtranclp_into_rtranclp)
  next
    case (Ret r')
    with running show ?thesis by simp
  next
    case (Loop req cur)
    from sys_invD(1) [OF inv k] Loop mem
    have rm: "req = ?req" and sub: "cur AND mem = cur" by (simp_all add: loop_ok_def)
    show ?thesis
    proof (cases "cur AND req = 0")
      case False
      have taken: "mem AND ?req \<noteq> 0"
      proof
        assume "mem AND ?req = 0"
        with sub have "cur AND ?req = 0" by (rule within_disjoint)
        with False rm show False by simp
      qed
      from step.intros [OF k thread_step_reject [OF Loop False, of False svc]] taken
      show ?thesis by auto
    next
      case True
      show ?thesis
      proof (cases "mem = cur")
        case same: True
        from Loop rm same have pc: "t_pc ?t = Loop ?req mem" by simp
        from loop_completes [OF k pc mem] show ?thesis .
      next
        case False
        then have "mem \<noteq> cur \<or> False" by simp
        from step.intros [OF k thread_step_retry [OF Loop mem True this]] rm
        have "step (svc, ts) (svc, ts[k := ?t\<lparr>t_pc := Loop ?req mem\<rparr>])" by simp
        from this fresh show ?thesis by (rule converse_rtranclp_into_rtranclp)
      qed
    qed
  qed
qed

subsection \<open>An example of contention\<close>

lemma a10_request: "seats_to_mask_or_fail [''a10''] = (512, [])"
  by code_simp

lemma a10_valid: "valid_request [''a10'']"
proof -
  have "try_parse_seat_label ''a10'' = Some 9" by code_simp
  then show ?thesis by (simp add: valid_request_def)
qed

lemma a10_load:
  "thread_step False BookingService_ctor (a10_call Entry) =
     (BookingService_ctor, a10_call (Loop 512 0))"
  by (simp add: thread_step_def a10_call_def get_state_mut_def ctor_show1 a10_request)

lemma a10_store:
  "thread_step False BookingService_ctor (a10_call (Loop 512 0)) =
     (a10_booked, a10_call (Ret booked))"
  by (simp add: thread_step_def a10_call_def a10_booked_def get_state_mut_def ctor_show1
      compare_exchange_weak_def)

lemma a10_retry:
  "thread_step False a10_booked (a10_call (Loop 512 0)) = (a10_booked, a10_call (Loop 512 512))"
  by (simp add: thread_step_def a10_call_def a10_booked_def get_state_mut_def
      compare_exchange_weak_def)

lemma a10_reject:
  "thread_step False a10_booked (a10_call (Loop 512 512)) =
     (a10_booked, a10_call (Ret (rejected ''One or more seats already booked'')))"
  by (simp add: thread_step_def a10_call_def)

lemma a10_contended_run:
  "rtranclp step
     (BookingService_ctor, map call_thread [(1, [''a10'']), (1, [''a10''])])
     (a10_booked, [a10_call (Ret booked), a10_call (Loop 512 512)])"
proof -
  have "step (BookingService_ctor, [a10_call Entry, a10_call Entry])
      (BookingService_ctor, [a10_call (Loop 512 0), a10_call Entry])"
    by (rule stepI [where i = 0 and sp = False and t' = "a10_call (Loop 512 0)"])
      (simp_all add: a10_load)
  moreover have "step (BookingService_ctor, [a10_call (Loop 512 0), a10_call Entry])
      (BookingService_ctor, [a10_call (Loop 512 0), a10_call (Loop 512 0)])"
    by (rule stepI [where i = 1 and sp = False and t' = "a10_call (Loop 512 0)"])
      (simp_all add: a10_load)
  moreover have "step (BookingService_ctor, [a10_call (Loop 512 0), a10_call (Loop 512 0)])
      (a10_booked, [a10_call (Ret booked), a10_call (Loop 512 0)])"
    by (rule stepI [where i = 0 and sp = False and t' = "a10_call (Ret booked)"])
      (simp_all add: a10_store)
  moreover have "step (a10_booked, [a10_call (Ret booked), a10_call (Loop 512 0)])
      (a10_booked, [a10_call (Ret booked), a10_call (Loop 512 512)])"
    by (rule stepI [where i = 1 and sp = False and t' = "a10_call (Loop 512 512)"])
      (simp_all add: a10_retry)
  moreover have "map call_thread [(1, [''a10'']), (1, [''a10''])] = [a10_call Entry, a10_call Entry]"
    by (simp add: call_thread_def a10_call_def)
  ultimately show ?thesis by simp
qed

lemma a11_request: "seats_to_mask_or_fail [''a11''] = (1024, [])"
  by code_simp

lemma a11_valid: "valid_request [''a11'']"
proof -
  have "try_parse_seat_label ''a11'' = Some 10" by code_simp
  then show ?thesis by (simp add: valid_request_def)
qed

lemma a11_load:
  "thread_step False BookingService_ctor (a11_call Entry) =
     (BookingService_ctor, a11_call (Loop 1024 0))"
  by (simp add: thread_step_def a11_call_def get_state_mut_def ctor_show1 a11_request)

lemma a10_loaded_run:
  "rtranclp step
     (BookingService_ctor, map call_thread [(1, [''a10'']), (1, [''a10''])])
     (BookingService_ctor, [a10_call (Loop 512 0), a10_call (Loop 512 0)])"
proof -
  have "step (BookingService_ctor, [a10_call Entry, a10_call Entry])
      (BookingService_ctor, [a10_call (Loop 512 0), a10_call Entry])"
    by (rule stepI [where i = 0 and sp = False and t' = "a10_call (Loop 512 0)"])
      (simp_all add: a10_load)
  moreover have "step (BookingService_ctor, [a10_call (Loop 512 0), a10_call Entry])
      (BookingService_ctor, [a10_call (Loop 512 0), a10_call (Loop 512 0)])"
    by (rule stepI [where i = 1 and sp = False and t' = "a10_call (Loop 512 0)"])
      (simp_all add: a10_load)
  moreover have "map call_thread [(1, [''a10'']), (1, [''a10''])] = [a10_call Entry, a10_call Entry]"
    by (simp add: call_thread_def a10_call_def)
  ultimately show ?thesis by simp
qed

lemma a11_stale_run:
  "rtranclp step
     (BookingService_ctor, map call_thread [(1, [''a10'']), (1, [''a11''])])
     (a10_booked, [a10_call (Ret booked), a11_call (Loop 1024 0)])"
proof -
  have "step (BookingService_ctor, [a10_call Entry, a11_call Entry])
      (BookingService_ctor, [a10_call (Loop 512 0), a11_call Entry])"
    by (rule stepI [where i = 0 and sp = False and t' = "a10_call (Loop 512 0)"])
      (simp_all add: a10_load)
  moreover have "step (BookingService_ctor, [a10_call (Loop 512 0), a11_call Entry])
      (BookingService_ctor, [a10_call (Loop 512 0), a11_call (Loop 1024 0)])"
    by (rule stepI [where i = 1 and sp = False and t' = "a11_call (Loop 1024 0)"])
      (simp_all add: a11_load)
  moreover have "step (BookingService_ctor, [a10_call (Loop 512 0), a11_call (Loop 1024 0)])
      (a10_booked, [a10_call (Ret booked), a11_call (Loop 1024 0)])"
    by (rule stepI [where i = 0 and sp = False and t' = "a10_call (Ret booked)"])
      (simp_all add: a10_store)
  moreover have "map call_thread [(1, [''a10'']), (1, [''a11''])] = [a10_call Entry, a11_call Entry]"
    by (simp add: call_thread_def a10_call_def a11_call_def)
  ultimately show ?thesis by simp
qed

section \<open>The claims about booking\<close>

text \<open>
  Claim C1: for a registered show and a non-empty valid list of labels with request mask
  \<open>req\<close>, \<open>book_seats\<close> returns success exactly when \<open>req\<close> has no bit in common with the
  committed mask at the decisive check; then the committed mask becomes the old one OR
  \<open>req\<close>. Otherwise it returns the rejection for already booked seats and commits
  nothing. The theorem has five parts.
  \<^enum> A call that runs without interference (whatever the number \<open>n\<close> of spurious failures
    of its compare-and-set) returns, and the committed mask at its decisive check is the
    mask \<open>st\<close> before the call.
  \<^enum> Among concurrent calls, in any configuration that an execution reaches: at the step
    with which a call returns, the result is success exactly when \<open>req\<close> has no bit in
    common with the committed mask \<open>mem\<close> at that step; then the step stores
    \<open>mem OR req\<close>, and otherwise the result is the rejection for already booked seats and
    the step leaves the service unchanged.
  \<^enum> A call in its loop whose \<open>current\<close> equals the committed mask and has no bit in
    common with \<open>req\<close> stores \<open>current OR req\<close> and returns success at its next step,
    unless the compare-and-set fails spuriously.
  \<^enum> A call in its loop whose \<open>current\<close> has a bit in common with \<open>req\<close> returns the
    rejection at its next step and leaves the service unchanged.
  \<^enum> Among concurrent calls, in any configuration that an execution reaches, a call
    that has not returned does return when it runs on without interference and without
    spurious failure: with success and the committed mask \<open>mem OR req\<close> when \<open>req\<close> has
    no bit in common with the committed mask \<open>mem\<close> of that configuration, and with the
    rejection and the service unchanged otherwise. This holds also when other calls
    have changed the mask since the call loaded its \<open>current\<close>.
\<close>

theorem book_seats_claim:
  "(show_state svc sid = Some st \<and> seat_labels \<noteq> [] \<and> valid_request seat_labels \<longrightarrow>
      success (fst (book_seats n svc sid seat_labels)) =
        (st AND fst (seats_to_mask_or_fail seat_labels) = 0) \<and>
      (st AND fst (seats_to_mask_or_fail seat_labels) = 0 \<longrightarrow>
         book_seats n svc sid seat_labels =
           (booked, svc\<lparr>show_state :=
              (show_state svc)(sid \<mapsto> st OR fst (seats_to_mask_or_fail seat_labels))\<rparr>)) \<and>
      (st AND fst (seats_to_mask_or_fail seat_labels) \<noteq> 0 \<longrightarrow>
         book_seats n svc sid seat_labels =
           (rejected ''One or more seats already booked'', svc))) \<and>
   (rtranclp step (svc0, map call_thread calls) (csvc, ts) \<and> k < length ts \<and>
    thread_step sp csvc (ts ! k) = (csvc', t') \<and>
    (\<forall>r'. t_pc (ts ! k) \<noteq> Ret r') \<and> t_pc t' = Ret r \<and>
    t_labels (ts ! k) \<noteq> [] \<and> valid_request (t_labels (ts ! k)) \<and>
    show_state csvc (t_show (ts ! k)) = Some mem \<longrightarrow>
      (r = booked) = (mem AND request_mask (ts ! k) = 0) \<and>
      (mem AND request_mask (ts ! k) = 0 \<longrightarrow>
         csvc' = csvc\<lparr>show_state :=
           (show_state csvc)(t_show (ts ! k) \<mapsto> mem OR request_mask (ts ! k))\<rparr>) \<and>
      (mem AND request_mask (ts ! k) \<noteq> 0 \<longrightarrow>
         r = rejected ''One or more seats already booked'' \<and> csvc' = csvc)) \<and>
   (t_pc t = Loop req cur \<and> show_state xsvc (t_show t) = Some cur \<and> cur AND req = 0 \<longrightarrow>
      thread_step False xsvc t =
        (xsvc\<lparr>show_state := (show_state xsvc)(t_show t \<mapsto> cur OR req)\<rparr>,
         t\<lparr>t_pc := Ret booked\<rparr>)) \<and>
   (t_pc t = Loop req cur \<and> cur AND req \<noteq> 0 \<longrightarrow>
      thread_step sp xsvc t =
        (xsvc, t\<lparr>t_pc := Ret (rejected ''One or more seats already booked'')\<rparr>)) \<and>
   (rtranclp step (svc0, map call_thread calls) (csvc, ts) \<and> k < length ts \<and>
    (\<forall>r'. t_pc (ts ! k) \<noteq> Ret r') \<and>
    t_labels (ts ! k) \<noteq> [] \<and> valid_request (t_labels (ts ! k)) \<and>
    show_state csvc (t_show (ts ! k)) = Some mem \<longrightarrow>
      rtranclp step (csvc, ts)
        (if mem AND request_mask (ts ! k) = 0
         then csvc\<lparr>show_state :=
                (show_state csvc)(t_show (ts ! k) \<mapsto> mem OR request_mask (ts ! k))\<rparr>
         else csvc,
         ts[k := (ts ! k)\<lparr>t_pc := Ret (if mem AND request_mask (ts ! k) = 0 then booked
                                       else rejected ''One or more seats already booked'')\<rparr>]))"
  (is "?sequential \<and> ?returning \<and> ?stores \<and> ?rejects \<and> ?completes")
proof -
  have "?sequential"
  proof (intro impI conjI)
    assume a: "show_state svc sid = Some st \<and> seat_labels \<noteq> [] \<and> valid_request seat_labels"
    then have e: "snd (seats_to_mask_or_fail seat_labels) = []"
      using seats_encode_valid [of seat_labels] by simp
    show "success (fst (book_seats n svc sid seat_labels)) =
          (st AND fst (seats_to_mask_or_fail seat_labels) = 0)"
      using a e by (simp add: book_seats_cases booked_def rejected_def)
    show "book_seats n svc sid seat_labels =
             (booked, svc\<lparr>show_state :=
                (show_state svc)(sid \<mapsto> st OR fst (seats_to_mask_or_fail seat_labels))\<rparr>)"
      if "st AND fst (seats_to_mask_or_fail seat_labels) = 0"
      using a e that by (simp add: book_seats_cases)
    show "book_seats n svc sid seat_labels =
             (rejected ''One or more seats already booked'', svc)"
      if "st AND fst (seats_to_mask_or_fail seat_labels) \<noteq> 0"
      using a e that by (simp add: book_seats_cases)
  qed
  moreover have "?returning"
  proof (intro impI conjI)
    assume b: "rtranclp step (svc0, map call_thread calls) (csvc, ts) \<and> k < length ts \<and>
      thread_step sp csvc (ts ! k) = (csvc', t') \<and>
      (\<forall>r'. t_pc (ts ! k) \<noteq> Ret r') \<and> t_pc t' = Ret r \<and>
      t_labels (ts ! k) \<noteq> [] \<and> valid_request (t_labels (ts ! k)) \<and>
      show_state csvc (t_show (ts ! k)) = Some mem"
    then have inv: "sys_inv (csvc, ts)"
      using sys_inv_steps [OF _ sys_inv_init] by blast
    from b have e: "snd (seats_to_mask_or_fail (t_labels (ts ! k))) = []"
      using seats_encode_valid [of "t_labels (ts ! k)"] by simp
    from b have k: "k < length ts" and st: "thread_step sp csvc (ts ! k) = (csvc', t')"
      and before: "\<forall>r'. t_pc (ts ! k) \<noteq> Ret r'" and after: "t_pc t' = Ret r"
      and ne: "t_labels (ts ! k) \<noteq> []" and mem: "show_state csvc (t_show (ts ! k)) = Some mem"
      by simp_all
    note res = returning_step [OF inv k st before after ne e mem]
    from res show "(r = booked) = (mem AND request_mask (ts ! k) = 0)" by blast
    from res show "csvc' = csvc\<lparr>show_state :=
             (show_state csvc)(t_show (ts ! k) \<mapsto> mem OR request_mask (ts ! k))\<rparr>"
      if "mem AND request_mask (ts ! k) = 0" using that by blast
    from res show "r = rejected ''One or more seats already booked''"
      if "mem AND request_mask (ts ! k) \<noteq> 0" using that by blast
    from res show "csvc' = csvc"
      if "mem AND request_mask (ts ! k) \<noteq> 0" using that by blast
  qed
  moreover have "?stores"
    using thread_step_store [of t req cur xsvc] by blast
  moreover have "?rejects"
    using thread_step_reject [of t req cur sp xsvc] by blast
  moreover have "?completes"
  proof
    assume c: "rtranclp step (svc0, map call_thread calls) (csvc, ts) \<and> k < length ts \<and>
      (\<forall>r'. t_pc (ts ! k) \<noteq> Ret r') \<and>
      t_labels (ts ! k) \<noteq> [] \<and> valid_request (t_labels (ts ! k)) \<and>
      show_state csvc (t_show (ts ! k)) = Some mem"
    then have inv: "sys_inv (csvc, ts)"
      using sys_inv_steps [OF _ sys_inv_init] by blast
    from c have e: "snd (seats_to_mask_or_fail (t_labels (ts ! k))) = []"
      using seats_encode_valid [of "t_labels (ts ! k)"] by simp
    from c have k: "k < length ts" and running: "\<forall>r'. t_pc (ts ! k) \<noteq> Ret r'"
      and ne: "t_labels (ts ! k) \<noteq> []" and mem: "show_state csvc (t_show (ts ! k)) = Some mem"
      by simp_all
    from call_completes [OF inv k running ne e mem]
    show "rtranclp step (csvc, ts)
        (if mem AND request_mask (ts ! k) = 0
         then csvc\<lparr>show_state :=
                (show_state csvc)(t_show (ts ! k) \<mapsto> mem OR request_mask (ts ! k))\<rparr>
         else csvc,
         ts[k := (ts ! k)\<lparr>t_pc := Ret (if mem AND request_mask (ts ! k) = 0 then booked
                                       else rejected ''One or more seats already booked'')\<rparr>])" .
  qed
  ultimately show ?thesis by blast
qed


theorem book_seats_claim_witness:
  "book_seats 2 BookingService_ctor 1 [''a1'', ''a2''] =
     (booked, BookingService_ctor\<lparr>show_state := (show_state BookingService_ctor)(1 \<mapsto> 3)\<rparr>) \<and>
   book_seats 0 (BookingService_ctor\<lparr>show_state := [1 \<mapsto> 1]\<rparr>) 1 [''a1'', ''a2''] =
     (rejected ''One or more seats already booked'',
      BookingService_ctor\<lparr>show_state := [1 \<mapsto> 1]\<rparr>) \<and>
   thread_step False a10_booked (a10_call (Loop 512 512)) =
     (a10_booked, a10_call (Ret (rejected ''One or more seats already booked''))) \<and>
   fst (thread_step False BookingService_ctor (a10_call (Loop 512 0))) = a10_booked \<and>
   thread_step False a10_booked (a11_call (Loop 1024 512)) =
     (a10_booked\<lparr>show_state := (show_state a10_booked)(1 \<mapsto> 1536)\<rparr>, a11_call (Ret booked)) \<and>
   thread_step True a10_booked (a10_call (Loop 512 512)) =
     (a10_booked, a10_call (Ret (rejected ''One or more seats already booked''))) \<and>
   rtranclp step
     (a10_booked, [a10_call (Ret booked), a11_call (Loop 1024 0)])
     (a10_booked\<lparr>show_state := (show_state a10_booked)(1 \<mapsto> 1536)\<rparr>,
      [a10_call (Ret booked), a11_call (Ret booked)])"
proof -
  have s: "show_state (BookingService_ctor\<lparr>show_state := [1 \<mapsto> 1]\<rparr>) 1 = Some 1" by simp
  have ne: "[''a1'', ''a2''] \<noteq> []" by simp
  have b: "show_state a10_booked 1 = Some 512" by (simp add: a10_booked_def)
  have c1: "book_seats 2 BookingService_ctor 1 [''a1'', ''a2''] =
     (booked, BookingService_ctor\<lparr>show_state := (show_state BookingService_ctor)(1 \<mapsto> 3)\<rparr>)"
    using book_seats_claim [where svc = BookingService_ctor and sid = 1 and st = 0
        and seat_labels = "[''a1'', ''a2'']" and n = 2]
      ctor_show1 ne request_a1_a2 by simp
  have c2: "book_seats 0 (BookingService_ctor\<lparr>show_state := [1 \<mapsto> 1]\<rparr>) 1 [''a1'', ''a2''] =
     (rejected ''One or more seats already booked'',
      BookingService_ctor\<lparr>show_state := [1 \<mapsto> 1]\<rparr>)"
    using book_seats_claim [where svc = "BookingService_ctor\<lparr>show_state := [1 \<mapsto> 1]\<rparr>"
        and sid = 1 and st = 1 and seat_labels = "[''a1'', ''a2'']" and n = 0]
      s ne request_a1_a2 by simp
  have c3: "thread_step False a10_booked (a10_call (Loop 512 512)) =
     (a10_booked, a10_call (Ret (rejected ''One or more seats already booked'')))"
  proof -
    let ?ts = "[a10_call (Ret booked), a10_call (Loop 512 512)]"
    obtain csvc' t' where st: "thread_step False a10_booked (?ts ! 1) = (csvc', t')"
      by (cases "thread_step False a10_booked (?ts ! 1)")
    with a10_reject have t': "t' = a10_call (Ret (rejected ''One or more seats already booked''))"
      by simp
    have h: "1 < length ?ts" "\<forall>r'. t_pc (?ts ! 1) \<noteq> Ret r'"
      "t_pc t' = Ret (rejected ''One or more seats already booked'')"
      "t_labels (?ts ! 1) \<noteq> []" "valid_request (t_labels (?ts ! 1))"
      "show_state a10_booked (t_show (?ts ! 1)) = Some 512"
      using a10_valid by (simp_all add: t' a10_call_def a10_booked_def)
    have over: "(512 :: u32) AND request_mask (?ts ! 1) \<noteq> 0"
      by (simp add: request_mask_def a10_call_def a10_request)
    from book_seats_claim [where ?svc0.0 = BookingService_ctor
        and calls = "[(1, [''a10'']), (1, [''a10''])]" and csvc = a10_booked and ts = ?ts
        and k = 1 and sp = False and csvc' = csvc' and t' = t'
        and r = "rejected ''One or more seats already booked''" and mem = 512]
      a10_contended_run st h over
    have "csvc' = a10_booked" by blast
    with st t' show ?thesis by simp
  qed
  have c4: "fst (thread_step False BookingService_ctor (a10_call (Loop 512 0))) = a10_booked"
  proof -
    let ?ts = "[a10_call (Loop 512 0), a10_call (Loop 512 0)]"
    obtain csvc' t' where st: "thread_step False BookingService_ctor (?ts ! 0) = (csvc', t')"
      by (cases "thread_step False BookingService_ctor (?ts ! 0)")
    with a10_store have t': "t' = a10_call (Ret booked)" by simp
    have h: "0 < length ?ts" "\<forall>r'. t_pc (?ts ! 0) \<noteq> Ret r'" "t_pc t' = Ret booked"
      "t_labels (?ts ! 0) \<noteq> []" "valid_request (t_labels (?ts ! 0))"
      "show_state BookingService_ctor (t_show (?ts ! 0)) = Some 0"
      using a10_valid ctor_show1 by (simp_all add: t' a10_call_def)
    have free: "(0 :: u32) AND request_mask (?ts ! 0) = 0" by simp
    have rm: "request_mask (?ts ! 0) = 512"
      by (simp add: request_mask_def a10_call_def a10_request)
    from book_seats_claim [where ?svc0.0 = BookingService_ctor
        and calls = "[(1, [''a10'']), (1, [''a10''])]" and csvc = BookingService_ctor
        and ts = ?ts and k = 0 and sp = False and csvc' = csvc' and t' = t'
        and r = booked and mem = 0]
      a10_loaded_run st h free
    have "csvc' = BookingService_ctor\<lparr>show_state :=
        (show_state BookingService_ctor)(t_show (?ts ! 0) \<mapsto> 0 OR request_mask (?ts ! 0))\<rparr>"
      by blast
    then have "csvc' = a10_booked" unfolding rm by (simp add: a10_booked_def a10_call_def)
    with st show ?thesis by simp
  qed
  have c5: "thread_step False a10_booked (a11_call (Loop 1024 512)) =
     (a10_booked\<lparr>show_state := (show_state a10_booked)(1 \<mapsto> 1536)\<rparr>, a11_call (Ret booked))"
  proof -
    have h: "t_pc (a11_call (Loop 1024 512)) = Loop 1024 512"
      "show_state a10_booked (t_show (a11_call (Loop 1024 512))) = Some 512"
      "(512 :: u32) AND 1024 = 0"
      by (simp_all add: a11_call_def a10_booked_def)
    from book_seats_claim [where t = "a11_call (Loop 1024 512)" and req = 1024 and cur = 512
        and xsvc = a10_booked] h
    have "thread_step False a10_booked (a11_call (Loop 1024 512)) =
        (a10_booked\<lparr>show_state :=
           (show_state a10_booked)(t_show (a11_call (Loop 1024 512)) \<mapsto> 512 OR 1024)\<rparr>,
         (a11_call (Loop 1024 512))\<lparr>t_pc := Ret booked\<rparr>)" by blast
    then show ?thesis by (simp add: a11_call_def)
  qed
  have c6: "thread_step True a10_booked (a10_call (Loop 512 512)) =
     (a10_booked, a10_call (Ret (rejected ''One or more seats already booked'')))"
  proof -
    have h: "t_pc (a10_call (Loop 512 512)) = Loop 512 512" "(512 :: u32) AND 512 \<noteq> 0"
      by (simp_all add: a10_call_def)
    from book_seats_claim [where t = "a10_call (Loop 512 512)" and req = 512 and cur = 512
        and xsvc = a10_booked and sp = True] h
    have "thread_step True a10_booked (a10_call (Loop 512 512)) =
        (a10_booked, (a10_call (Loop 512 512))
           \<lparr>t_pc := Ret (rejected ''One or more seats already booked'')\<rparr>)" by blast
    then show ?thesis by (simp add: a10_call_def)
  qed
  have c7: "rtranclp step
     (a10_booked, [a10_call (Ret booked), a11_call (Loop 1024 0)])
     (a10_booked\<lparr>show_state := (show_state a10_booked)(1 \<mapsto> 1536)\<rparr>,
      [a10_call (Ret booked), a11_call (Ret booked)])"
  proof -
    let ?ts = "[a10_call (Ret booked), a11_call (Loop 1024 0)]"
    have h: "1 < length ?ts" "\<forall>r'. t_pc (?ts ! 1) \<noteq> Ret r'"
      "t_labels (?ts ! 1) \<noteq> []" "valid_request (t_labels (?ts ! 1))"
      "show_state a10_booked (t_show (?ts ! 1)) = Some 512"
      using a11_valid by (simp_all add: a11_call_def a10_booked_def)
    have rm: "request_mask (?ts ! 1) = 1024"
      by (simp add: request_mask_def a11_call_def a11_request)
    from book_seats_claim [where ?svc0.0 = BookingService_ctor
        and calls = "[(1, [''a10'']), (1, [''a11''])]" and csvc = a10_booked and ts = ?ts
        and k = 1 and mem = 512]
      a11_stale_run h
    have "rtranclp step (a10_booked, ?ts)
        (if 512 AND request_mask (?ts ! 1) = 0
         then a10_booked\<lparr>show_state :=
                (show_state a10_booked)(t_show (?ts ! 1) \<mapsto> 512 OR request_mask (?ts ! 1))\<rparr>
         else a10_booked,
         ?ts[1 := (?ts ! 1)\<lparr>t_pc := Ret (if 512 AND request_mask (?ts ! 1) = 0 then booked
                                       else rejected ''One or more seats already booked'')\<rparr>])"
      by blast
    then show ?thesis unfolding rm by (simp add: a11_call_def)
  qed
  from c1 c2 c3 c4 c5 c6 c7 show ?thesis by blast
qed

text \<open>
  Claim C2: every result of \<open>book_seats\<close> other than success leaves the service, hence
  every committed mask, as it was. The branches are: unknown show id, empty request,
  a label that is invalid or duplicated, and seats already booked. The results of the
  three validation branches are given by the labels alone: they do not mention the
  committed mask, which the call has neither read nor written when it returns them.
  Among concurrent calls the same holds step by step: a step of a call that does not end
  in the success result writes nothing.
\<close>

theorem book_seats_failure_keeps_state:
  "(\<not> success (fst (book_seats n svc sid ls)) \<longrightarrow> snd (book_seats n svc sid ls) = svc) \<and>
   (show_state svc sid = None \<longrightarrow>
      book_seats n svc sid ls = (rejected ''Invalid show id'', svc)) \<and>
   (show_state svc sid \<noteq> None \<and> ls = [] \<longrightarrow>
      book_seats n svc sid ls = (rejected ''No seats provided'', svc)) \<and>
   (show_state svc sid \<noteq> None \<and> ls \<noteq> [] \<and> snd (seats_to_mask_or_fail ls) \<noteq> [] \<longrightarrow>
      book_seats n svc sid ls = (rejected (snd (seats_to_mask_or_fail ls)), svc)) \<and>
   (show_state svc sid = Some st \<and> ls \<noteq> [] \<and> snd (seats_to_mask_or_fail ls) = [] \<and>
    st AND fst (seats_to_mask_or_fail ls) \<noteq> 0 \<longrightarrow>
      book_seats n svc sid ls = (rejected ''One or more seats already booked'', svc)) \<and>
   (thread_step sp csvc t = (csvc', t') \<and> t_pc t' \<noteq> Ret booked \<longrightarrow> csvc' = csvc)"
proof -
  have "csvc' = csvc" if "thread_step sp csvc t = (csvc', t')" "t_pc t' \<noteq> Ret booked"
    using that by (rule step_writes_only_on_claim)
  moreover have
    "(\<not> success (fst (book_seats n svc sid ls)) \<longrightarrow> snd (book_seats n svc sid ls) = svc) \<and>
     (show_state svc sid = None \<longrightarrow>
        book_seats n svc sid ls = (rejected ''Invalid show id'', svc)) \<and>
     (show_state svc sid \<noteq> None \<and> ls = [] \<longrightarrow>
        book_seats n svc sid ls = (rejected ''No seats provided'', svc)) \<and>
     (show_state svc sid \<noteq> None \<and> ls \<noteq> [] \<and> snd (seats_to_mask_or_fail ls) \<noteq> [] \<longrightarrow>
        book_seats n svc sid ls = (rejected (snd (seats_to_mask_or_fail ls)), svc)) \<and>
     (show_state svc sid = Some st \<and> ls \<noteq> [] \<and> snd (seats_to_mask_or_fail ls) = [] \<and>
      st AND fst (seats_to_mask_or_fail ls) \<noteq> 0 \<longrightarrow>
        book_seats n svc sid ls = (rejected ''One or more seats already booked'', svc))"
    by (auto simp: book_seats_cases booked_def rejected_def split: option.splits)
  ultimately show ?thesis by blast
qed

theorem book_seats_failure_keeps_state_witness:
  "book_seats 0 BookingService_ctor 9 [''a1''] = (rejected ''Invalid show id'', BookingService_ctor) \<and>
   book_seats 0 BookingService_ctor 1 [] = (rejected ''No seats provided'', BookingService_ctor) \<and>
   book_seats 0 BookingService_ctor 1 [''a21''] =
     (rejected ''Invalid seat label: a21'', BookingService_ctor) \<and>
   book_seats 0 (BookingService_ctor\<lparr>show_state := [1 \<mapsto> 1]\<rparr>) 1 [''a1'', ''a2''] =
     (rejected ''One or more seats already booked'',
      BookingService_ctor\<lparr>show_state := [1 \<mapsto> 1]\<rparr>) \<and>
   snd (book_seats 0 BookingService_ctor 1 [''a1'', ''A1'']) = BookingService_ctor \<and>
   fst (thread_step False a10_booked (a10_call (Loop 512 0))) = a10_booked"
proof -
  have n: "show_state BookingService_ctor 9 = None" by (simp add: ctor_state)
  have s: "show_state (BookingService_ctor\<lparr>show_state := [1 \<mapsto> 1]\<rparr>) 1 = Some 1" by simp
  have e21: "seats_to_mask_or_fail [''a21''] = (0, ''Invalid seat label: a21'')" by code_simp
  have dup: "seats_to_mask_or_fail [''a1'', ''A1''] = (0, ''Duplicate seat label: A1'')" by code_simp
  have "book_seats 0 BookingService_ctor 9 [''a1''] = (rejected ''Invalid show id'', BookingService_ctor)"
    using book_seats_failure_keeps_state [of 0 BookingService_ctor 9 "[''a1'']"] n by blast
  moreover have "book_seats 0 BookingService_ctor 1 [] = (rejected ''No seats provided'', BookingService_ctor)"
    using book_seats_failure_keeps_state [of 0 BookingService_ctor 1 "[]"] ctor_show1 by simp
  moreover have "book_seats 0 BookingService_ctor 1 [''a21''] =
     (rejected ''Invalid seat label: a21'', BookingService_ctor)"
    using book_seats_failure_keeps_state [of 0 BookingService_ctor 1 "[''a21'']"] ctor_show1 e21
    by simp
  moreover have "book_seats 0 (BookingService_ctor\<lparr>show_state := [1 \<mapsto> 1]\<rparr>) 1 [''a1'', ''a2''] =
     (rejected ''One or more seats already booked'',
      BookingService_ctor\<lparr>show_state := [1 \<mapsto> 1]\<rparr>)"
    using book_seats_failure_keeps_state
      [of 0 "BookingService_ctor\<lparr>show_state := [1 \<mapsto> 1]\<rparr>" 1 "[''a1'', ''a2'']" 1] s
    by (simp add: request_a1_a2(2))
  moreover have "snd (book_seats 0 BookingService_ctor 1 [''a1'', ''A1'']) = BookingService_ctor"
  proof -
    have "book_seats 0 BookingService_ctor 1 [''a1'', ''A1''] =
        (rejected ''Duplicate seat label: A1'', BookingService_ctor)"
      using book_seats_failure_keeps_state [of 0 BookingService_ctor 1 "[''a1'', ''A1'']"]
        ctor_show1 dup by simp
    then have "\<not> success (fst (book_seats 0 BookingService_ctor 1 [''a1'', ''A1'']))"
      by (simp add: rejected_def)
    then show ?thesis
      using book_seats_failure_keeps_state [of 0 BookingService_ctor 1 "[''a1'', ''A1'']"] by blast
  qed
  moreover have "fst (thread_step False a10_booked (a10_call (Loop 512 0))) = a10_booked"
  proof -
    have "t_pc (a10_call (Loop 512 512)) \<noteq> Ret booked" by (simp add: a10_call_def)
    with a10_retry
      book_seats_failure_keeps_state [of _ _ _ _ _ False a10_booked "a10_call (Loop 512 0)"
        "fst (thread_step False a10_booked (a10_call (Loop 512 0)))" "a10_call (Loop 512 512)"]
    show ?thesis by simp
  qed
  ultimately show ?thesis by blast
qed

text \<open>
  Claim C7: the committed mask of a show only grows. After any sequence of
  \<open>book_seats\<close> and \<open>list_available_seats\<close> calls a registered show is still registered
  and every bit that was set in its committed mask is still set; and the same holds
  from any configuration of concurrent calls to any configuration that an execution
  reaches from it.
\<close>

theorem committed_mask_monotone:
  "(show_state svc sid = Some m \<longrightarrow>
      (\<exists>m'. show_state (run_calls svc cs) sid = Some m' \<and> (\<forall>i. bit m i \<longrightarrow> bit m' i))) \<and>
   (rtranclp step (svc, ts) (svc', ts') \<and> show_state svc sid = Some m \<longrightarrow>
      (\<exists>m'. show_state svc' sid = Some m' \<and> (\<forall>i. bit m i \<longrightarrow> bit m' i)))"
proof -
  have bits: "\<forall>i. bit m i \<longrightarrow> bit m' i" if "m AND m' = m" for m' :: u32
  proof (intro allI impI)
    fix i assume "bit m i"
    with that have "bit (m AND m') i" by simp
    then show "bit m' i" by (simp add: bit_and_iff)
  qed
  have "\<exists>m'. show_state (run_calls svc cs) sid = Some m' \<and> (\<forall>i. bit m i \<longrightarrow> bit m' i)"
    if "show_state svc sid = Some m"
    using run_calls_grows [OF that, of cs] bits by blast
  moreover have "\<exists>m'. show_state svc' sid = Some m' \<and> (\<forall>i. bit m i \<longrightarrow> bit m' i)"
    if "rtranclp step (svc, ts) (svc', ts')" "show_state svc sid = Some m"
    using steps_grows [OF that(1), of sid m] that(2) bits by auto
  ultimately show ?thesis by blast
qed

theorem committed_mask_monotone_witness:
  "(\<exists>m'. show_state (run_calls (BookingService_ctor\<lparr>show_state := [1 \<mapsto> 5]\<rparr>)
            [Book 1 1 [''a2''], ListAvailable 1]) 1 = Some m' \<and> bit m' 0 \<and> bit m' 2) \<and>
   (\<exists>m'. show_state (snd (book_seats 0 (BookingService_ctor\<lparr>show_state := [1 \<mapsto> 5]\<rparr>) 1
            [''a2''])) 1 = Some m' \<and> bit m' 0 \<and> bit m' 2)"
proof -
  let ?svc = "BookingService_ctor\<lparr>show_state := [1 \<mapsto> 5]\<rparr>"
  have s: "show_state ?svc 1 = Some 5" by simp
  have b: "bit (5 :: u32) 0" "bit (5 :: u32) 2" by simp_all
  have run: "rtranclp step (?svc, [call_thread (1, [''a2''])])
      (snd (book_seats 0 ?svc 1 [''a2'']),
       [\<lparr>t_show = 1, t_labels = [''a2''], t_pc = Ret (fst (book_seats 0 ?svc 1 [''a2'']))\<rparr>])"
    by (rule book_seats_solo_run)
  from committed_mask_monotone [of ?svc 1 5 "[Book 1 1 [''a2''], ListAvailable 1]"] s b
  have "\<exists>m'. show_state (run_calls ?svc [Book 1 1 [''a2''], ListAvailable 1]) 1 = Some m' \<and>
      bit m' 0 \<and> bit m' 2" by blast
  moreover from committed_mask_monotone [of ?svc 1 5 _ "[call_thread (1, [''a2''])]"
      "snd (book_seats 0 ?svc 1 [''a2''])"
      "[\<lparr>t_show = 1, t_labels = [''a2''], t_pc = Ret (fst (book_seats 0 ?svc 1 [''a2'']))\<rparr>]"]
    s b run
  have "\<exists>m'. show_state (snd (book_seats 0 ?svc 1 [''a2''])) 1 = Some m' \<and> bit m' 0 \<and> bit m' 2"
    by blast
  ultimately show ?thesis by blast
qed

text \<open>
  Claim C10: no mask has a bit above index 19. Shifting the 20 seat bits out leaves
  zero for every request mask that \<open>seats_to_mask_or_fail\<close> returns, for every committed
  mask of a service reached from the constructor by any sequence of calls, and for
  every committed mask in a configuration that an execution of concurrent calls reaches
  from the constructor's service.
\<close>

theorem masks_upper_bits_zero:
  "drop_bit 20 (fst (seats_to_mask_or_fail ls)) = 0 \<and>
   (show_state (run_calls BookingService_ctor cs) sid = Some m \<longrightarrow> drop_bit 20 m = 0) \<and>
   (rtranclp step (BookingService_ctor, map call_thread calls) (svc, ts) \<and>
    show_state svc sid' = Some m' \<longrightarrow> drop_bit 20 m' = 0)"
proof -
  have c: "\<And>k m. show_state BookingService_ctor k = Some m \<Longrightarrow> drop_bit 20 m = 0"
    using ctor_low by blast
  have "drop_bit 20 m' = 0"
    if "rtranclp step (BookingService_ctor, map call_thread calls) (svc, ts)"
      "show_state svc sid' = Some m'"
    using steps_low [OF that(1) sys_inv_init, of sid' m'] c that(2) by simp
  with seats_to_mask_low run_calls_low [OF ctor_low] show ?thesis by blast
qed

theorem masks_upper_bits_zero_witness:
  "drop_bit 20 (fst (seats_to_mask_or_fail [''a20''])) = 0 \<and>
   drop_bit 20 (the (show_state (run_calls BookingService_ctor [Book 0 1 [''a20'']]) 1)) = 0 \<and>
   drop_bit 20 (the (show_state a10_booked 1)) = 0"
proof -
  have "seats_to_mask_or_fail [''a20''] = (0x80000, [])" by code_simp
  then have s: "show_state (run_calls BookingService_ctor [Book 0 1 [''a20'']]) 1 = Some 0x80000"
    by (simp add: run_calls_def book_seats_cases ctor_state)
  have t: "show_state a10_booked 1 = Some 512" by (simp add: a10_booked_def)
  from masks_upper_bits_zero [of "[''a20'']" "[Book 0 1 [''a20'']]" 1 "0x80000"
      "[(1, [''a10'']), (1, [''a10''])]" a10_booked
      "[a10_call (Ret booked), a10_call (Loop 512 512)]" 1 512]
    s t a10_contended_run
  show ?thesis by simp
qed

text \<open>
  Claim C9: no overbooking. Take any number of concurrent \<open>book_seats\<close> calls on a
  service and any execution of them, and among the calls any set of calls on one show
  whose request masks overlap pairwise. In every configuration the execution reaches, at
  most one call of the set has returned success.
\<close>

theorem no_overbooking:
  assumes run: "rtranclp step (svc0, map call_thread calls) (svc, ts)"
    and I: "I \<subseteq> {..<length calls}"
    and overlap: "\<forall>i \<in> I. \<forall>j \<in> I. i \<noteq> j \<longrightarrow>
       fst (calls ! i) = fst (calls ! j) \<and>
       fst (seats_to_mask_or_fail (snd (calls ! i))) AND
         fst (seats_to_mask_or_fail (snd (calls ! j))) \<noteq> 0"
  shows "card {i \<in> I. claimed (ts ! i)} \<le> 1"
proof -
  have inv: "sys_inv (svc, ts)"
    using sys_inv_steps [OF run sys_inv_init] .
  have fin: "finite {i \<in> I. claimed (ts ! i)}"
    using I by (auto intro: finite_subset [of _ "{..<length calls}"])
  have "i = j" if "i \<in> I" "j \<in> I" "claimed (ts ! i)" "claimed (ts ! j)" for i j
  proof (rule ccontr)
    assume ne: "i \<noteq> j"
    from that I have i: "i < length calls" and j: "j < length calls" by auto
    note ai = run_args [OF run i] and aj = run_args [OF run j]
    from overlap that ne have sh: "fst (calls ! i) = fst (calls ! j)"
      and ov: "fst (seats_to_mask_or_fail (snd (calls ! i))) AND
         fst (seats_to_mask_or_fail (snd (calls ! j))) \<noteq> 0" by blast+
    from sys_invD(3) [OF inv, of i j] i j ne that ai aj sh
    have "request_mask (ts ! i) AND request_mask (ts ! j) = 0" by simp
    with ov ai aj show False by (simp add: request_mask_def)
  qed
  then have "\<forall>a \<in> {i \<in> I. claimed (ts ! i)}. \<forall>b \<in> {i \<in> I. claimed (ts ! i)}. a = b"
    by blast
  with fin show ?thesis by (simp add: card_le_Suc0_iff_eq)
qed

theorem no_overbooking_witness:
  "rtranclp step
     (BookingService_ctor, map call_thread [(1, [''a10'']), (1, [''a10''])])
     (a10_booked,
      [a10_call (Ret booked), a10_call (Ret (rejected ''One or more seats already booked''))]) \<and>
   card {i \<in> {0, 1}.
     claimed ([a10_call (Ret booked),
               a10_call (Ret (rejected ''One or more seats already booked''))] ! i)} \<le> 1"
proof -
  have "step (a10_booked, [a10_call (Ret booked), a10_call (Loop 512 512)])
      (a10_booked,
       [a10_call (Ret booked), a10_call (Ret (rejected ''One or more seats already booked''))])"
    by (rule stepI [where i = 1 and sp = False
          and t' = "a10_call (Ret (rejected ''One or more seats already booked''))"])
      (simp_all add: a10_reject)
  with a10_contended_run have run: "rtranclp step
      (BookingService_ctor, map call_thread [(1, [''a10'']), (1, [''a10''])])
      (a10_booked,
       [a10_call (Ret booked), a10_call (Ret (rejected ''One or more seats already booked''))])"
    by (rule rtranclp.rtrancl_into_rtrancl)
  have I: "{0, 1} \<subseteq> {..<length [(1 :: int, [''a10'']), (1, [''a10''])]}" by auto
  have ov: "\<forall>i \<in> {0, 1 :: nat}. \<forall>j \<in> {0, 1}. i \<noteq> j \<longrightarrow>
       fst ([(1 :: int, [''a10'']), (1, [''a10''])] ! i) = fst ([(1, [''a10'']), (1, [''a10''])] ! j) \<and>
       fst (seats_to_mask_or_fail (snd ([(1 :: int, [''a10'']), (1, [''a10''])] ! i))) AND
         fst (seats_to_mask_or_fail (snd ([(1 :: int, [''a10'']), (1, [''a10''])] ! j))) \<noteq> 0"
    by (simp add: a10_request)
  from no_overbooking [OF run I ov] run show ?thesis by blast
qed

end
